theory Spec2Isabelle
  imports Complex_Main "HOL-Library.Log_Nat" "HOL-Library.AList"
begin

section \<open>Data of horreum-to-postgresql.py\<close>

text \<open>
  The script mirrors dataset summaries of a Horreum test into the PostgreSQL table
  \<^verbatim>\<open>data\<close>. A dataset summary is the JSON object of the listing call; the script
  reads its keys \<^verbatim>\<open>id\<close>, \<^verbatim>\<open>testId\<close>, \<^verbatim>\<open>runId\<close> and \<^verbatim>\<open>start\<close> (epoch milliseconds),
  all Python integers.
\<close>

record dataset =
  ds_id :: int
  ds_testId :: int
  ds_runId :: int
  ds_start :: int

text \<open>A label value is an arbitrary JSON value; the script never looks inside one.\<close>

datatype json =
  Json_null
  | Json_bool bool
  | Json_number rat
  | Json_string string
  | Json_array "json list"
  | Json_object "(string \<times> json) list"

text \<open>
  The exceptions the modelled calls can raise. Nothing in the script catches an
  exception, so each one ends the run.
\<close>

datatype error =
  ConnectionError
  | HTTPError nat
  | JSONDecodeError
  | ZeroDivisionError
  | OverflowError
  | ValueError
  | OperationalError
  | InterfaceError
  | InFailedSqlTransaction
  | UndefinedTable
  | DataError
  | NumericValueOutOfRange
  | SequenceGeneratorLimitExceeded
  | UniqueViolation

section \<open>The Horreum API\<close>

text \<open>
  What \<^verbatim>\<open>requests.get\<close> finds at the other end: no answer at all, or a response with a
  status code and a body. The body is \<open>None\<close> when it is not the JSON document
  \<^verbatim>\<open>response.json()\<close> expects.
\<close>

datatype 'a reply = NoReply | Reply nat "'a option"

text \<open>
  \<^verbatim>\<open>requests.get(...)\<close>, \<^verbatim>\<open>response.raise_for_status()\<close> and \<^verbatim>\<open>response.json()\<close>, in
  the order both callers run them. \<^verbatim>\<open>raise_for_status\<close> raises for the status codes
  400 to 599.
\<close>

definition get_json :: "'a reply \<Rightarrow> error + 'a" where
  "get_json r =
     (case r of
        NoReply \<Rightarrow> Inl ConnectionError
      | Reply status_code body \<Rightarrow>
          if 400 \<le> status_code \<and> status_code < 600 then Inl (HTTPError status_code)
          else (case body of None \<Rightarrow> Inl JSONDecodeError | Some doc \<Rightarrow> Inr doc))"

text \<open>
  The server: the listing endpoint \<^verbatim>\<open>/api/dataset/list/{test_id}\<close> answers a test id, a
  page number and a page size with a document whose member \<^verbatim>\<open>datasets\<close> may be absent
  (\<open>None\<close>); the endpoint \<^verbatim>\<open>/api/dataset/{dataset_id}/labelValues\<close> answers a dataset id
  with a list of name and value pairs.
\<close>

record horreum =
  dataset_list :: "int \<Rightarrow> int \<Rightarrow> int \<Rightarrow> dataset list option reply"
  dataset_labelValues :: "int \<Rightarrow> (string \<times> json) list reply"

section \<open>The generator \<^verbatim>\<open>_horreum_datasets\<close>\<close>

text \<open>
  A generator is modelled by the sequence of what it does, in the order a consumer that
  exhausts it observes: a page request, a dataset handed to the consumer, an exception.
  The sequence ends where the generator returns; \<open>Raised\<close> can only stand last. A
  consumer that stops early has seen a prefix.
\<close>

datatype gen_event = Requested int int | Yielded dataset | Raised error

text \<open>\<^verbatim>\<open>response.json().get("datasets", [])\<close>: the member \<^verbatim>\<open>datasets\<close>, or the default.\<close>

definition datasets_of :: "dataset list option \<Rightarrow> dataset list" where
  "datasets_of doc = (case doc of None \<Rightarrow> [] | Some dss \<Rightarrow> dss)"

text \<open>
  The inner loop \<^verbatim>\<open>for ds in datasets: yield ds; counter += 1; if counter >= count: return\<close>.
  The result is the datasets yielded, the counter afterwards, and whether the generator
  returned from inside the loop.
\<close>

fun yield_datasets :: "int \<Rightarrow> int \<Rightarrow> dataset list \<Rightarrow> dataset list \<times> int \<times> bool" where
  "yield_datasets count counter [] = ([], counter, False)"
| "yield_datasets count counter (ds # rest) =
     (let counter' = counter + 1 in
      if counter' \<ge> count then ([ds], counter', True)
      else (case yield_datasets count counter' rest of
              (ys, c, returned) \<Rightarrow> (ds # ys, c, returned)))"

text \<open>
  The outer loop \<^verbatim>\<open>while True\<close>: request the page, raise on a bad status, take the member
  \<^verbatim>\<open>datasets\<close> (default \<^verbatim>\<open>[]\<close>), run the inner loop, return on an empty page, otherwise go
  on with the next page. That the loop ends for every server and every \<^verbatim>\<open>count\<close> is proved
  in the section on the termination of the generator, after the definitions.
\<close>

function horreum_datasets_loop ::
  "horreum \<Rightarrow> int \<Rightarrow> int \<Rightarrow> int \<Rightarrow> int \<Rightarrow> int \<Rightarrow> gen_event list" where
  "horreum_datasets_loop srv test_id count limit counter page =
     Requested page limit #
     (case get_json (dataset_list srv test_id page limit) of
        Inl e \<Rightarrow> [Raised e]
      | Inr doc \<Rightarrow>
          (let datasets = datasets_of doc in
           case yield_datasets count counter datasets of
             (ys, counter', returned) \<Rightarrow>
               map Yielded ys @
               (if returned then []
                else if length datasets = 0 then []
                else horreum_datasets_loop srv test_id count limit counter' (page + 1))))"
  by pat_completeness auto

text \<open>\<^verbatim>\<open>_horreum_datasets(base_url, test_id, count, page, limit)\<close>: the counter starts at 0.\<close>

definition horreum_datasets :: "horreum \<Rightarrow> int \<Rightarrow> int \<Rightarrow> int \<Rightarrow> int \<Rightarrow> gen_event list" where
  "horreum_datasets srv test_id count page limit =
     horreum_datasets_loop srv test_id count limit 0 page"

section \<open>Floats and timestamps\<close>

text \<open>
  A Python float is an IEEE 754 binary64 number; the model keeps its exact value as a
  rational. \<open>ilog2 x\<close> is the integer part of the binary logarithm of a positive \<open>x\<close>.
\<close>

definition ilog2 :: "rat \<Rightarrow> int" where
  "ilog2 x =
     (case quotient_of x of
        (p, q) \<Rightarrow> (let k = bitlen p - bitlen q in if 2 powi k \<le> x then k else k - 1))"

text \<open>Python's \<^verbatim>\<open>round(x)\<close> of a float: to the nearest integer, a tie to the even one.\<close>

definition round_half_even :: "rat \<Rightarrow> int" where
  "round_half_even x =
     (let f = \<lfloor>x\<rfloor>; r = x - of_int f in
      if r < 1 / 2 then f else if 1 / 2 < r then f + 1 else if even f then f else f + 1)"

text \<open>
  Rounding a rational to binary64 (round to nearest, ties to even): 53 significant bits,
  the exponent of the last bit no smaller than \<open>-1074\<close> (subnormal numbers). The caller
  checks for overflow.
\<close>

definition binary64 :: "rat \<Rightarrow> rat" where
  "binary64 x =
     (if x = 0 then 0
      else (let e = max (ilog2 \<bar>x\<bar> - 52) (- 1074) in
            of_int (round_half_even (x / 2 powi e)) * 2 powi e))"

text \<open>
  \<^verbatim>\<open>a / b\<close> on two Python integers: true division, the correctly rounded float of the
  exact quotient; \<^verbatim>\<open>OverflowError\<close> when that is too large for a float.
\<close>

definition truediv :: "int \<Rightarrow> int \<Rightarrow> error + rat" where
  "truediv a b =
     (if b = 0 then Inl ZeroDivisionError
      else (let q = binary64 (of_int a / of_int b) in
            if 2 ^ 1024 \<le> \<bar>q\<bar> then Inl OverflowError else Inr q))"

text \<open>\<^verbatim>\<open>math.modf\<close>: the fractional and the integral part, both with the sign of \<open>x\<close>.\<close>

definition modf :: "rat \<Rightarrow> rat \<times> rat" where
  "modf x = (let ip = (if 0 \<le> x then of_int \<lfloor>x\<rfloor> else of_int \<lceil>x\<rceil>) in (x - ip, ip))"

text \<open>
  A \<^verbatim>\<open>datetime\<close> whose \<^verbatim>\<open>tzinfo\<close> is UTC. The calendar is the proleptic Gregorian one of
  the \<^verbatim>\<open>datetime\<close> module: \<open>ord2ymd\<close> turns a day number (1 is 0001-01-01) into year,
  month and day the way the module's \<^verbatim>\<open>_ord2ymd\<close> does.
\<close>

record datetime =
  year :: int
  month :: int
  day :: int
  hour :: int
  minute :: int
  second :: int
  microsecond :: int

definition days_in_month :: "int list" where
  "days_in_month = [- 1, 31, 28, 31, 30, 31, 30, 31, 31, 30, 31, 30, 31]"

definition days_before_month :: "int list" where
  "days_before_month = [- 1, 0, 31, 59, 90, 120, 151, 181, 212, 243, 273, 304, 334]"

definition ord2ymd :: "int \<Rightarrow> int \<times> int \<times> int" where
  "ord2ymd ordinal =
     (let n = ordinal - 1;
          n400 = n div 146097; n = n mod 146097;
          n100 = n div 36524; n = n mod 36524;
          n4 = n div 1461; n = n mod 1461;
          n1 = n div 365; n = n mod 365;
          y = n400 * 400 + 1 + n100 * 100 + n4 * 4 + n1
      in if n1 = 4 \<or> n100 = 4 then (y - 1, 12, 31)
         else (let leapyear = (n1 = 3 \<and> (n4 \<noteq> 24 \<or> n100 = 3));
                   m = (n + 50) div 32;
                   preceding = days_before_month ! nat m + (if 2 < m \<and> leapyear then 1 else 0)
               in if n < preceding
                  then (let m' = m - 1;
                            preceding' = preceding -
                              (days_in_month ! nat m' + (if m' = 2 \<and> leapyear then 1 else 0))
                        in (y, m', n - preceding' + 1))
                  else (y, m, n - preceding + 1)))"

text \<open>
  \<^verbatim>\<open>time.gmtime\<close> followed by the \<^verbatim>\<open>datetime\<close> constructor, for a whole number of seconds
  since 1970-01-01 (day number 719163) and a microsecond: \<^verbatim>\<open>OverflowError\<close> outside the
  range of a 64-bit \<^verbatim>\<open>time_t\<close>, \<^verbatim>\<open>ValueError\<close> for a year outside 1 to 9999.
\<close>

definition utc_datetime :: "int \<Rightarrow> int \<Rightarrow> error + datetime" where
  "utc_datetime t us =
     (if t < - (2 ^ 63) \<or> 2 ^ 63 \<le> t then Inl OverflowError
      else (case ord2ymd (t div 86400 + 719163) of
              (y, m, d) \<Rightarrow>
                if y < 1 \<or> 9999 < y then Inl ValueError
                else (let s = t mod 86400 in
                      Inr \<lparr>year = y, month = m, day = d, hour = s div 3600,
                           minute = s mod 3600 div 60, second = s mod 60, microsecond = us\<rparr>)))"

text \<open>
  \<^verbatim>\<open>datetime.datetime.fromtimestamp(t, datetime.UTC)\<close> for a float \<open>t\<close>: split \<open>t\<close> with
  \<^verbatim>\<open>modf\<close>, round the fraction times \<^verbatim>\<open>1e6\<close> (a float product) to whole microseconds,
  carry into the seconds, convert.
\<close>

definition fromtimestamp :: "rat \<Rightarrow> error + datetime" where
  "fromtimestamp ts =
     (case modf ts of
        (fraction, t) \<Rightarrow>
          (let us = round_half_even (binary64 (fraction * 1000000)) in
           if 1000000 \<le> us then utc_datetime (\<lfloor>t\<rfloor> + 1) (us - 1000000)
           else if us < 0 then utc_datetime (\<lfloor>t\<rfloor> - 1) (us + 1000000)
           else utc_datetime \<lfloor>t\<rfloor> us))"

text \<open>
  Line 229 of the script:
  \<^verbatim>\<open>when = datetime.datetime.fromtimestamp(ds["start"] / 1000, datetime.UTC)\<close>.
\<close>

definition when_of :: "dataset \<Rightarrow> error + datetime" where
  "when_of ds =
     (case truediv (ds_start ds) 1000 of
        Inl e \<Rightarrow> Inl e
      | Inr ts \<Rightarrow> fromtimestamp ts)"

section \<open>The table \<^verbatim>\<open>data\<close>\<close>

text \<open>
  The unit the script builds for each dataset and hands to \<^verbatim>\<open>_db_insert\<close>: the dictionary
  with the keys \<^verbatim>\<open>horreum_testid\<close>, \<^verbatim>\<open>horreum_runid\<close>, \<^verbatim>\<open>horreum_datasetid\<close>, \<^verbatim>\<open>start\<close> and
  \<^verbatim>\<open>label_values\<close>.
\<close>

record mirror_record =
  horreum_testid :: int
  horreum_runid :: int
  horreum_datasetid :: int
  start :: datetime
  label_values :: "(string \<times> json) list"

text \<open>\<^verbatim>\<open>UNIQUE (horreum_testid, horreum_runid, horreum_datasetid)\<close>: the natural key.\<close>

definition natural_key :: "mirror_record \<Rightarrow> int \<times> int \<times> int" where
  "natural_key r = (horreum_testid r, horreum_runid r, horreum_datasetid r)"

text \<open>The three key columns and the column \<^verbatim>\<open>id\<close> are \<^verbatim>\<open>INTEGER\<close>: 32 bits, signed.\<close>

definition fits_integer :: "int \<Rightarrow> bool" where
  "fits_integer v = (- (2 ^ 31) \<le> v \<and> v < 2 ^ 31)"

definition fits_row :: "mirror_record \<Rightarrow> bool" where
  "fits_row v =
     (fits_integer (horreum_testid v) \<and> fits_integer (horreum_runid v) \<and>
      fits_integer (horreum_datasetid v))"

text \<open>
  The tuple \<^verbatim>\<open>values\<close> that \<^verbatim>\<open>_db_insert\<close> builds from one dictionary, in the order of the
  placeholders of the statement; the last component is the text
  \<^verbatim>\<open>json.dumps(i["label_values"])\<close>. \<^verbatim>\<open>json.dumps\<close> belongs to the standard library, not
  to the script: it is the parameter \<open>dumps\<close> of everything that calls it, and what is
  proved holds for whatever text it writes.
\<close>

type_synonym insert_values = "int \<times> int \<times> int \<times> datetime \<times> string"

definition values_of ::
  "((string \<times> json) list \<Rightarrow> string) \<Rightarrow> mirror_record \<Rightarrow> insert_values" where
  "values_of dumps i =
     (horreum_testid i, horreum_runid i, horreum_datasetid i, start i, dumps (label_values i))"

text \<open>
  A row of the table: the value of the column \<^verbatim>\<open>id SERIAL PRIMARY KEY\<close>, which the
  sequence of the column supplies, and the five values of the statement. The column
  \<^verbatim>\<open>label_values\<close> is kept as the text that was sent.
\<close>

type_synonym data_row = "int \<times> insert_values"

definition row_key :: "data_row \<Rightarrow> int \<times> int \<times> int" where
  "row_key r =
     (case r of (row_id, testid, runid, datasetid, when, labels) \<Rightarrow> (testid, runid, datasetid))"

text \<open>
  One statement
  \<^verbatim>\<open>INSERT INTO data (...) VALUES (...) ON CONFLICT (horreum_testid, horreum_runid, horreum_datasetid) DO NOTHING\<close>
  on the table as the open transaction sees it (\<open>None\<close>: the name \<^verbatim>\<open>data\<close> resolves to no
  table) and the next value \<open>seq\<close> of the sequence of \<^verbatim>\<open>id\<close>. \<open>accepts\<close> tells which texts the
  input function of the type \<^verbatim>\<open>JSONB\<close> of this server takes (it refuses, for one, a text
  with the escape of the character NUL in a string). In the order in which the server
  finds them:

    \<^item> there is no table: \<^verbatim>\<open>UndefinedTable\<close>;
    \<^item> the text of \<^verbatim>\<open>label_values\<close> is refused (the literal is converted when the
      statement is analysed): a \<^verbatim>\<open>DataError\<close>;
    \<^item> a key value is outside \<^verbatim>\<open>INTEGER\<close> (the constant is converted when the statement
      is planned): \<^verbatim>\<open>NumericValueOutOfRange\<close>;
    \<^item> the sequence has handed out 2147483647, its last value:
      \<^verbatim>\<open>SequenceGeneratorLimitExceeded\<close>;
    \<^item> otherwise the row takes the next value of the sequence, and keeps it also when
      the row is not inserted. A row with the same natural key is there: nothing is
      inserted. The value of \<^verbatim>\<open>id\<close> is in the table already: \<^verbatim>\<open>UniqueViolation\<close> of the
      primary key. Otherwise the row is appended.

  The result is the error or the table, and the next value of the sequence, which no
  rollback takes back.
\<close>

definition insert_do_nothing ::
  "(string \<Rightarrow> bool) \<Rightarrow> data_row list option \<Rightarrow> int \<Rightarrow> insert_values \<Rightarrow>
     (error + data_row list option) \<times> int" where
  "insert_do_nothing accepts tbl seq v =
     (case tbl of
        None \<Rightarrow> (Inl UndefinedTable, seq)
      | Some rows \<Rightarrow>
          (case v of
             (testid, runid, datasetid, when, labels) \<Rightarrow>
               if \<not> accepts labels then (Inl DataError, seq)
               else if \<not> (fits_integer testid \<and> fits_integer runid \<and> fits_integer datasetid)
                 then (Inl NumericValueOutOfRange, seq)
               else if \<not> seq < 2 ^ 31 then (Inl SequenceGeneratorLimitExceeded, seq)
               else if (testid, runid, datasetid) \<in> set (map row_key rows)
                 then (Inr (Some rows), seq + 1)
               else if seq \<in> set (map fst rows) then (Inl UniqueViolation, seq + 1)
               else (Inr (Some (rows @ [(seq, v)])), seq + 1)))"

text \<open>
  \<^verbatim>\<open>psycopg2.extras.execute_batch(cur, query, values_list)\<close>: the statement once for each
  element, in order, inside the open transaction; the first error raises and the rest
  does not run.
\<close>

fun execute_batch ::
  "(string \<Rightarrow> bool) \<Rightarrow> data_row list option \<Rightarrow> int \<Rightarrow> insert_values list \<Rightarrow>
     (error + data_row list option) \<times> int" where
  "execute_batch accepts tbl seq [] = (Inr tbl, seq)"
| "execute_batch accepts tbl seq (v # values_list) =
     (case insert_do_nothing accepts tbl seq v of
        (Inl e, seq') \<Rightarrow> (Inl e, seq')
      | (Inr tbl', seq') \<Rightarrow> execute_batch accepts tbl' seq' values_list)"

text \<open>
  A psycopg2 connection and what it reaches of the server:

    \<^item> \<open>stored\<close>: the committed contents of the table \<^verbatim>\<open>data\<close> that the name resolves to
      (\<open>None\<close> when it resolves to no table);
    \<^item> \<open>txn\<close>: the contents as the open transaction sees them; after a failed statement,
      when the transaction can only be rolled back, the committed contents again;
    \<^item> \<open>aborted\<close>: a statement of the open transaction has failed; until the transaction
      is ended every further statement raises \<^verbatim>\<open>InFailedSqlTransaction\<close>;
    \<^item> \<open>commits\<close>, \<open>closes\<close>: how often \<^verbatim>\<open>commit()\<close> and \<^verbatim>\<open>close()\<close> were called;
    \<^item> \<open>id_seq\<close>: the next value of the sequence of the column \<^verbatim>\<open>id\<close>;
    \<^item> \<open>elsewhere\<close>: a table named \<^verbatim>\<open>data\<close> exists in a schema that is not on the search
      path, where \<^verbatim>\<open>pg_tables\<close> lists it and \<^verbatim>\<open>INSERT INTO data\<close> does not find it;
    \<^item> \<open>jsonb_in\<close>: the texts the type \<^verbatim>\<open>JSONB\<close> of the server takes.

  Privileges, other sessions and the loss of the connection are outside the model.
\<close>

record connection =
  stored :: "data_row list option"
  txn :: "data_row list option"
  aborted :: bool
  commits :: nat
  closes :: nat
  id_seq :: int
  elsewhere :: bool
  jsonb_in :: "string \<Rightarrow> bool"

text \<open>
  \<^verbatim>\<open>conn.commit()\<close> ends the transaction: what it saw is committed. For a failed
  transaction the server answers \<^verbatim>\<open>COMMIT\<close> with a rollback and psycopg2 raises nothing;
  \<open>txn\<close> holds the committed contents then, so the same assignment describes it.
\<close>

definition commit :: "connection \<Rightarrow> connection" where
  "commit conn = conn\<lparr>stored := txn conn, aborted := False, commits := commits conn + 1\<rparr>"

text \<open>Closing rolls back what was not committed.\<close>

definition close :: "connection \<Rightarrow> connection" where
  "close conn = conn\<lparr>txn := stored conn, closes := closes conn + 1\<rparr>"

text \<open>
  The PostgreSQL server before the run: whether \<^verbatim>\<open>psycopg2.connect\<close> reaches it, the
  table \<^verbatim>\<open>data\<close> on the search path, if any, with the next value of the sequence of its
  column \<^verbatim>\<open>id\<close>, whether a table of that name exists off the search path, and the texts
  its type \<^verbatim>\<open>JSONB\<close> takes.
\<close>

record postgresql =
  reachable :: bool
  data_table :: "data_row list option"
  data_id_seq :: int
  data_elsewhere :: bool
  jsonb_accepts :: "string \<Rightarrow> bool"

text \<open>The connection object that \<^verbatim>\<open>psycopg2.connect\<close> returns.\<close>

definition new_connection :: "postgresql \<Rightarrow> connection" where
  "new_connection pg =
     \<lparr>stored = data_table pg, txn = data_table pg, aborted = False, commits = 0, closes = 0,
      id_seq = data_id_seq pg, elsewhere = data_elsewhere pg, jsonb_in = jsonb_accepts pg\<rparr>"

definition db_connect :: "postgresql \<Rightarrow> error + connection" where
  "db_connect pg = (if reachable pg then Inr (new_connection pg) else Inl OperationalError)"

text \<open>
  \<^verbatim>\<open>_db_table_init\<close>. \<^verbatim>\<open>conn.cursor()\<close> raises \<^verbatim>\<open>InterfaceError\<close> on a closed connection, and
  the query raises in a failed transaction. The query
  \<^verbatim>\<open>SELECT EXISTS (SELECT FROM pg_tables WHERE tablename = 'data')\<close> looks for the name in
  every schema: \<^verbatim>\<open>table_exists\<close> is true also when the only table of that name is off
  the search path. When it is false, \<^verbatim>\<open>CREATE TABLE data\<close> makes an empty table with a
  new sequence, which starts at 1, and \<^verbatim>\<open>conn.commit()\<close> commits it.
\<close>

definition db_table_init :: "connection \<Rightarrow> (error + unit) \<times> connection" where
  "db_table_init conn =
     (if closes conn > 0 then (Inl InterfaceError, conn)
      else if aborted conn then (Inl InFailedSqlTransaction, conn)
      else
        (let table_exists = (txn conn \<noteq> None \<or> elsewhere conn) in
         if \<not> table_exists then (Inr (), commit (conn\<lparr>txn := Some [], id_seq := 1\<rparr>))
         else (Inr (), conn)))"

text \<open>
  \<^verbatim>\<open>_db_insert(conn, data_list)\<close>: \<^verbatim>\<open>conn.cursor()\<close>, which raises \<^verbatim>\<open>InterfaceError\<close> on a
  closed connection; \<^verbatim>\<open>values_list\<close>, one tuple for each dictionary; the batch, whose
  first statement raises \<^verbatim>\<open>InFailedSqlTransaction\<close> in a failed transaction (an empty
  batch runs no statement); \<^verbatim>\<open>conn.commit()\<close>. When the batch raises, \<^verbatim>\<open>conn.commit()\<close> is
  not reached: the transaction has failed and its work is lost, but the values taken
  from the sequence are not given back.
\<close>

definition db_insert ::
  "((string \<times> json) list \<Rightarrow> string) \<Rightarrow> connection \<Rightarrow> mirror_record list \<Rightarrow>
     (error + unit) \<times> connection" where
  "db_insert dumps conn data_list =
     (if closes conn > 0 then (Inl InterfaceError, conn)
      else
        (let values_list = map (values_of dumps) data_list in
         if aborted conn \<and> values_list \<noteq> [] then (Inl InFailedSqlTransaction, conn)
         else
           (case execute_batch (jsonb_in conn) (txn conn) (id_seq conn) values_list of
              (Inl e, seq) \<Rightarrow> (Inl e, conn\<lparr>txn := stored conn, aborted := True, id_seq := seq\<rparr>)
            | (Inr tbl, seq) \<Rightarrow> (Inr (), commit (conn\<lparr>txn := tbl, id_seq := seq\<rparr>)))))"

section \<open>The run: \<^verbatim>\<open>upload\<close>\<close>

text \<open>
  \<^verbatim>\<open>_horreum_labelvalues\<close>: one request; the dictionary comprehension
  \<^verbatim>\<open>{i["name"]: i["value"] for i in response.json()}\<close> keeps the last value of a name.
\<close>

definition horreum_labelvalues :: "horreum \<Rightarrow> int \<Rightarrow> error + (string \<times> json) list" where
  "horreum_labelvalues srv dataset_id =
     (case get_json (dataset_labelValues srv dataset_id) of
        Inl e \<Rightarrow> Inl e
      | Inr doc \<Rightarrow> Inr (fold (\<lambda>(name, v) d. AList.update name v d) doc []))"

text \<open>The arguments of the subcommand \<^verbatim>\<open>upload\<close> that the run reads.\<close>

record args =
  horreum_test_id :: int
  horreum_count :: int
  horreum_page :: int
  horreum_limit :: int

text \<open>
  What a run leaves behind, for an observer: the connection, the HTTP requests in order
  (a page of the listing with its page size, or the label values of a dataset), the
  argument of every call of \<^verbatim>\<open>_db_insert\<close> in order, and the largest length
  \<^verbatim>\<open>data_to_insert\<close> has had. The last two are observations only; the script keeps no
  such log.
\<close>

datatype http_request = Get_dataset_list int int | Get_labelValues int

record upload_state =
  db_conn :: connection
  http_log :: "http_request list"
  insert_log :: "mirror_record list list"
  peak :: nat

text \<open>
  The first half of the loop body: fetch the label values, convert \<^verbatim>\<open>start\<close>, build the
  dictionary.
\<close>

definition collect :: "horreum \<Rightarrow> dataset \<Rightarrow> error + mirror_record" where
  "collect srv ds =
     (case horreum_labelvalues srv (ds_id ds) of
        Inl e \<Rightarrow> Inl e
      | Inr lv \<Rightarrow>
          (case when_of ds of
             Inl e \<Rightarrow> Inl e
           | Inr when \<Rightarrow>
               Inr \<lparr>horreum_testid = ds_testId ds, horreum_runid = ds_runId ds,
                    horreum_datasetid = ds_id ds, start = when, label_values = lv\<rparr>))"

text \<open>
  The second half of the loop body: append the dictionary to \<^verbatim>\<open>data_to_insert\<close> and, when
  the list has 10 elements or more, insert it and start an empty one. The result is
  the list the next iteration starts with.
\<close>

definition append_and_flush ::
  "((string \<times> json) list \<Rightarrow> string) \<Rightarrow> mirror_record \<Rightarrow> mirror_record list \<Rightarrow> upload_state \<Rightarrow>
     (error + mirror_record list) \<times> upload_state" where
  "append_and_flush dumps r data_to_insert st =
     (let data = data_to_insert @ [r];
          st1 = st\<lparr>peak := max (peak st) (length data)\<rparr>
      in if length data \<ge> 10
         then (case db_insert dumps (db_conn st1) data of
                 (Inl e, conn) \<Rightarrow>
                   (Inl e, st1\<lparr>db_conn := conn, insert_log := insert_log st1 @ [data]\<rparr>)
               | (Inr u, conn) \<Rightarrow>
                   (Inr [], st1\<lparr>db_conn := conn, insert_log := insert_log st1 @ [data]\<rparr>))
         else (Inr data, st1))"

text \<open>The whole body of the loop for one dataset.\<close>

definition loop_body ::
  "((string \<times> json) list \<Rightarrow> string) \<Rightarrow> horreum \<Rightarrow> dataset \<Rightarrow> mirror_record list \<Rightarrow>
     upload_state \<Rightarrow> (error + mirror_record list) \<times> upload_state" where
  "loop_body dumps srv ds data_to_insert st =
     (let st1 = st\<lparr>http_log := http_log st @ [Get_labelValues (ds_id ds)]\<rparr> in
      case collect srv ds of
        Inl e \<Rightarrow> (Inl e, st1)
      | Inr r \<Rightarrow> append_and_flush dumps r data_to_insert st1)"

text \<open>
  The loop \<^verbatim>\<open>for ds in datasets_generator\<close>, over what the generator does: its page
  requests go to the log, an exception of the generator or of the body ends the loop.
\<close>

fun for_datasets ::
  "((string \<times> json) list \<Rightarrow> string) \<Rightarrow> horreum \<Rightarrow> gen_event list \<Rightarrow> mirror_record list \<Rightarrow>
     upload_state \<Rightarrow> (error + mirror_record list) \<times> upload_state" where
  "for_datasets dumps srv [] data_to_insert st = (Inr data_to_insert, st)"
| "for_datasets dumps srv (Requested page limit # evs) data_to_insert st =
     for_datasets dumps srv evs data_to_insert
       (st\<lparr>http_log := http_log st @ [Get_dataset_list page limit]\<rparr>)"
| "for_datasets dumps srv (Raised e # evs) data_to_insert st = (Inl e, st)"
| "for_datasets dumps srv (Yielded ds # evs) data_to_insert st =
     (case loop_body dumps srv ds data_to_insert st of
        (Inl e, st') \<Rightarrow> (Inl e, st')
      | (Inr data, st') \<Rightarrow> for_datasets dumps srv evs data st')"

text \<open>
  The result of \<^verbatim>\<open>upload\<close>: the exception that ended it (\<open>None\<close> when it returned), how
  many connections \<^verbatim>\<open>_db_connect\<close> opened, and the state left behind (\<open>None\<close> when no
  connection was opened).
\<close>

record run =
  outcome :: "error option"
  opened :: nat
  final :: "upload_state option"

text \<open>
  The statements of \<^verbatim>\<open>upload\<close> after the connection is open and the table is looked
  after: the loop, the call of \<^verbatim>\<open>_db_insert\<close> for what is left in \<^verbatim>\<open>data_to_insert\<close>, and
  \<^verbatim>\<open>db_conn.close()\<close>.
\<close>

definition upload_with ::
  "((string \<times> json) list \<Rightarrow> string) \<Rightarrow> horreum \<Rightarrow> args \<Rightarrow> connection \<Rightarrow> run" where
  "upload_with dumps srv args conn =
     (let datasets_generator =
            horreum_datasets srv (horreum_test_id args) (horreum_count args)
              (horreum_page args) (horreum_limit args)
      in case for_datasets dumps srv datasets_generator []
                \<lparr>db_conn = conn, http_log = [], insert_log = [], peak = 0\<rparr> of
           (Inl e, st) \<Rightarrow> \<lparr>outcome = Some e, opened = 1, final = Some st\<rparr>
         | (Inr data_to_insert, st) \<Rightarrow>
             if length data_to_insert > 0
             then (case db_insert dumps (db_conn st) data_to_insert of
                     (Inl e, c) \<Rightarrow>
                       \<lparr>outcome = Some e, opened = 1,
                        final = Some (st\<lparr>db_conn := c,
                          insert_log := insert_log st @ [data_to_insert]\<rparr>)\<rparr>
                   | (Inr u, c) \<Rightarrow>
                       \<lparr>outcome = None, opened = 1,
                        final = Some (st\<lparr>db_conn := close c,
                          insert_log := insert_log st @ [data_to_insert]\<rparr>)\<rparr>)
             else \<lparr>outcome = None, opened = 1,
                   final = Some (st\<lparr>db_conn := close (db_conn st)\<rparr>)\<rparr>)"

text \<open>
  \<^verbatim>\<open>upload\<close>: connect, look after the table, and go on as above. Nothing catches an
  exception, so whatever raises ends the run where it is.
\<close>

definition upload ::
  "((string \<times> json) list \<Rightarrow> string) \<Rightarrow> horreum \<Rightarrow> postgresql \<Rightarrow> args \<Rightarrow> run" where
  "upload dumps srv pg args =
     (case db_connect pg of
        Inl e \<Rightarrow> \<lparr>outcome = Some e, opened = 0, final = None\<rparr>
      | Inr conn \<Rightarrow>
          (case db_table_init conn of
             (Inl e, conn1) \<Rightarrow>
               \<lparr>outcome = Some e, opened = 1,
                final = Some \<lparr>db_conn = conn1, http_log = [], insert_log = [], peak = 0\<rparr>\<rparr>
           | (Inr u, conn1) \<Rightarrow> upload_with dumps srv args conn1))"

section \<open>Observations and example inputs\<close>

text \<open>The datasets a generator hands out, and the pages it requests, in order.\<close>

fun yielded_of :: "gen_event list \<Rightarrow> dataset list" where
  "yielded_of [] = []"
| "yielded_of (Yielded ds # evs) = ds # yielded_of evs"
| "yielded_of (Requested page limit # evs) = yielded_of evs"
| "yielded_of (Raised e # evs) = yielded_of evs"

fun pages_of :: "gen_event list \<Rightarrow> int list" where
  "pages_of [] = []"
| "pages_of (Requested page limit # evs) = page # pages_of evs"
| "pages_of (Yielded ds # evs) = pages_of evs"
| "pages_of (Raised e # evs) = pages_of evs"

fun raised_of :: "gen_event list \<Rightarrow> error list" where
  "raised_of [] = []"
| "raised_of (Raised e # evs) = e # raised_of evs"
| "raised_of (Requested page limit # evs) = raised_of evs"
| "raised_of (Yielded ds # evs) = raised_of evs"

text \<open>
  A server for the examples: it holds the datasets \<open>items\<close>, newest first, serves page
  \<open>page\<close> (from 1) of size \<open>limit\<close> of them with status 200, and has no labels.
\<close>

definition example_dataset :: "int \<Rightarrow> dataset" where
  "example_dataset i =
     \<lparr>ds_id = i, ds_testId = 1, ds_runId = 100 + i, ds_start = 1700000000000 - 1000 * i\<rparr>"

definition paged_source :: "dataset list \<Rightarrow> horreum" where
  "paged_source items =
     \<lparr>dataset_list = (\<lambda>test_id page limit.
        Reply 200 (Some (Some (take (nat limit) (drop (nat ((page - 1) * limit)) items))))),
      dataset_labelValues = (\<lambda>dataset_id. Reply 200 (Some []))\<rparr>"

definition example_items :: "nat \<Rightarrow> dataset list" where
  "example_items n = map (\<lambda>i. example_dataset (int i)) [1..<Suc n]"

text \<open>A server whose listing endpoint answers every request with the status 503.\<close>

definition failing_source :: horreum where
  "failing_source =
     \<lparr>dataset_list = (\<lambda>test_id page limit. Reply 503 None),
      dataset_labelValues = (\<lambda>dataset_id. Reply 503 None)\<rparr>"

text \<open>
  A server that serves ten datasets as page 1 and answers every other page with 503.
\<close>

definition flaky_source :: horreum where
  "flaky_source =
     \<lparr>dataset_list = (\<lambda>test_id page limit.
        if page = 1 then Reply 200 (Some (Some (example_items 10))) else Reply 503 None),
      dataset_labelValues = (\<lambda>dataset_id. Reply 200 (Some []))\<rparr>"

text \<open>
  A server that answers every request with the status 300 and a body: one dataset as
  page 1 of the listing, no datasets on the other pages, one label for every dataset.
\<close>

definition redirect_source :: horreum where
  "redirect_source =
     \<lparr>dataset_list = (\<lambda>test_id page limit.
        if page = 1 then Reply 300 (Some (Some [example_dataset 1]))
        else Reply 300 (Some (Some []))),
      dataset_labelValues = (\<lambda>dataset_id. Reply 300 (Some [(''name'', Json_string ''value'')]))\<rparr>"

text \<open>
  For the examples, \<^verbatim>\<open>json.dumps\<close> on a dictionary whose values are strings: a double
  quote or a backslash gets a backslash in front, the character NUL is written as its
  escape (a backslash and \<^verbatim>\<open>u0000\<close>), the entries are separated by a comma and a space,
  a name from its value by a colon and a space. This is what \<^verbatim>\<open>json.dumps\<close> writes when
  the strings have no other control character and nothing outside ASCII; a value that
  is not a string is written as \<^verbatim>\<open>null\<close> here.
\<close>

definition dumps_string :: "string \<Rightarrow> string" where
  "dumps_string s =
     CHR 0x22 #
     concat (map (\<lambda>c. if c = CHR 0x00 then CHR 0x5C # ''u0000''
                      else if c = CHR 0x22 \<or> c = CHR 0x5C then [CHR 0x5C, c]
                      else [c]) s) @
     [CHR 0x22]"

fun join_items :: "string list \<Rightarrow> string" where
  "join_items [] = []"
| "join_items [s] = s"
| "join_items (s # t # ss) = s @ '', '' @ join_items (t # ss)"

definition example_dumps :: "(string \<times> json) list \<Rightarrow> string" where
  "example_dumps d =
     ''{'' @
     join_items (map (\<lambda>(name, v). dumps_string name @ '': '' @
                        (case v of Json_string s \<Rightarrow> dumps_string s | _ \<Rightarrow> ''null'')) d) @
     ''}''"

text \<open>
  For the examples, a type \<^verbatim>\<open>JSONB\<close> that refuses the texts in which the escape of NUL
  occurs, and takes the others.
\<close>

definition example_jsonb_in :: "string \<Rightarrow> bool" where
  "example_jsonb_in t =
     (\<not> list_ex (\<lambda>i. take 6 (drop i t) = CHR 0x5C # ''u0000'') [0..<length t])"

text \<open>
  Dictionaries for the examples, with no labels; the same with one label whose value is
  the string of the single character NUL; and the row of the table that the
  dictionary without labels gives, with a value of \<^verbatim>\<open>id\<close>.
\<close>

definition example_row :: "int \<Rightarrow> mirror_record" where
  "example_row i =
     \<lparr>horreum_testid = 1, horreum_runid = 100 + i, horreum_datasetid = i,
      start = \<lparr>year = 2023, month = 11, day = 14, hour = 22, minute = 13, second = 20,
               microsecond = 0\<rparr>,
      label_values = []\<rparr>"

definition example_row_nul :: "int \<Rightarrow> mirror_record" where
  "example_row_nul i = (example_row i)\<lparr>label_values := [(''note'', Json_string [CHR 0x00])]\<rparr>"

definition example_stored :: "int \<Rightarrow> int \<Rightarrow> data_row" where
  "example_stored row_id i = (row_id, values_of example_dumps (example_row i))"

text \<open>
  An open connection to an empty table \<^verbatim>\<open>data\<close> with a new sequence, and one to a table
  with the given rows and the given next value of the sequence.
\<close>

definition connection_with :: "data_row list \<Rightarrow> int \<Rightarrow> connection" where
  "connection_with rows seq =
     \<lparr>stored = Some rows, txn = Some rows, aborted = False, commits = 0, closes = 0,
      id_seq = seq, elsewhere = False, jsonb_in = example_jsonb_in\<rparr>"

definition fresh_connection :: connection where
  "fresh_connection = connection_with [] 1"

text \<open>
  A reachable server with an empty table \<^verbatim>\<open>data\<close> and a new sequence, and the default
  arguments.
\<close>

definition empty_database :: postgresql where
  "empty_database =
     \<lparr>reachable = True, data_table = Some [], data_id_seq = 1, data_elsewhere = False,
      jsonb_accepts = example_jsonb_in\<rparr>"

definition example_args :: "int \<Rightarrow> args" where
  "example_args count =
     \<lparr>horreum_test_id = 1, horreum_count = count, horreum_page = 1, horreum_limit = 10\<rparr>"

text \<open>
  Notions for the properties of the table. The natural keys a table holds; a dictionary
  whose values the statement takes; a dictionary the table has nothing to gain from
  (its values are taken and a row with its natural key is there); a table without two
  rows of one natural key; a connection that is open, with no failed transaction, to a
  table whose values of \<^verbatim>\<open>id\<close> are all below the next value of the sequence.
\<close>

definition stored_keys :: "data_row list option \<Rightarrow> (int \<times> int \<times> int) set" where
  "stored_keys tbl = (case tbl of None \<Rightarrow> {} | Some rows \<Rightarrow> set (map row_key rows))"

definition valid_record ::
  "(string \<Rightarrow> bool) \<Rightarrow> ((string \<times> json) list \<Rightarrow> string) \<Rightarrow> mirror_record \<Rightarrow> bool" where
  "valid_record accepts dumps r = (accepts (dumps (label_values r)) \<and> fits_row r)"

definition absorbed ::
  "(string \<Rightarrow> bool) \<Rightarrow> ((string \<times> json) list \<Rightarrow> string) \<Rightarrow> data_row list option \<Rightarrow>
     mirror_record \<Rightarrow> bool" where
  "absorbed accepts dumps tbl r =
     (valid_record accepts dumps r \<and> natural_key r \<in> stored_keys tbl)"

definition keys_distinct :: "data_row list option \<Rightarrow> bool" where
  "keys_distinct tbl = (case tbl of None \<Rightarrow> True | Some rows \<Rightarrow> distinct (map row_key rows))"

definition ready :: "connection \<Rightarrow> bool" where
  "ready conn =
     (closes conn = 0 \<and> \<not> aborted conn \<and>
      (case txn conn of None \<Rightarrow> False | Some rows \<Rightarrow> list_all (\<lambda>r. fst r < id_seq conn) rows))"


section \<open>Termination of the generator\<close>

text \<open>
  When the inner loop runs through a page without returning, it has handed out the whole
  page and the counter is still below \<^verbatim>\<open>count\<close>. So every further page request follows a
  rise of the counter, and the outer loop ends: the generator is finite whatever the
  server answers.
\<close>

lemma yield_datasets_fallthrough:
  "yield_datasets count counter dss = (ys, c, False) \<Longrightarrow>
     ys = dss \<and> c = counter + int (length dss) \<and> (dss \<noteq> [] \<longrightarrow> c < count)"
proof (induction dss arbitrary: counter ys c)
  case Nil
  then show ?case by simp
next
  case (Cons ds rest)
  from Cons.prems have small: "\<not> count \<le> counter + 1"
    by (auto simp: Let_def split: if_splits)
  obtain ys' c' r' where rec: "yield_datasets count (counter + 1) rest = (ys', c', r')"
    by (cases "yield_datasets count (counter + 1) rest") auto
  with Cons.prems small have eqs: "ys = ds # ys'" "c = c'" "r' = False"
    by (auto simp: Let_def)
  from rec eqs(3) have "yield_datasets count (counter + 1) rest = (ys', c', False)"
    by simp
  from Cons.IH [OF this]
  have ih: "ys' = rest" "c' = counter + 1 + int (length rest)" "rest \<noteq> [] \<longrightarrow> c' < count"
    by blast+
  have "c < count"
  proof (cases rest)
    case Nil
    with ih(2) eqs(2) small show ?thesis by simp
  next
    case (Cons r rs)
    with ih(3) eqs(2) show ?thesis by simp
  qed
  with ih(1,2) eqs(1,2) show ?case by simp
qed

termination horreum_datasets_loop
proof (relation "measure (\<lambda>(srv, test_id, count, limit, counter, page). nat (count - counter))")
  show "wf (measure (\<lambda>(srv, test_id, count, limit, counter, page). nat (count - counter)))"
    by simp
next
  fix srv :: horreum and test_id count limit counter page :: int
  fix doc datasets x ys y counter' returned
  assume "datasets = datasets_of doc"
    and "(ys, y) = yield_datasets count counter datasets"
    and "(counter', returned) = y"
    and "\<not> returned"
    and "length datasets \<noteq> 0"
  then have "yield_datasets count counter datasets = (ys, counter', False)"
    and "datasets \<noteq> []"
    by auto
  from yield_datasets_fallthrough [OF this(1)] this(2)
  have "counter' = counter + int (length datasets)" "counter' < count" "0 < length datasets"
    by auto
  then show "((srv, test_id, count, limit, counter', page + 1),
              (srv, test_id, count, limit, counter, page))
        \<in> measure (\<lambda>(srv, test_id, count, limit, counter, page). nat (count - counter))"
    by simp
qed

declare horreum_datasets_loop.simps [simp del]

section \<open>The timestamp conversion keeps the milliseconds\<close>

text \<open>
  Rounding to binary64 moves a number by at most one part in \<open>2 ^ 53\<close> (plus half the
  spacing of the subnormal numbers), which is less than half a microsecond for the
  seconds of any date before 2106. The microseconds \<^verbatim>\<open>fromtimestamp\<close> rounds to are then
  exactly the milliseconds of \<^verbatim>\<open>start\<close>.
\<close>

lemma round_half_even_error: "\<bar>of_int (round_half_even x) - x\<bar> \<le> 1 / 2"
proof -
  define f where "f = \<lfloor>x\<rfloor>"
  have bounds: "of_int f \<le> x" "x < of_int f + 1"
    unfolding f_def by linarith+
  have "round_half_even x =
      (if x - of_int f < 1 / 2 then f else if 1 / 2 < x - of_int f then f + 1
       else if even f then f else f + 1)"
    by (simp add: round_half_even_def f_def Let_def)
  with bounds show ?thesis
    by (auto simp: abs_if split: if_splits)
qed

lemma round_half_even_near:
  assumes "\<bar>x - of_int n\<bar> < 1 / 2"
  shows "round_half_even x = n"
proof -
  have "\<bar>of_int (round_half_even x) - x\<bar> \<le> 1 / 2" by (rule round_half_even_error)
  with assms have "\<bar>(of_int (round_half_even x) :: rat) - of_int n\<bar> < 1" by linarith
  then have "\<bar>(of_int (round_half_even x - n) :: rat)\<bar> < 1" by simp
  then have "\<bar>round_half_even x - n\<bar> < 1"
    by (metis of_int_abs of_int_less_1_iff)
  then show ?thesis by linarith
qed

lemma round_half_even_nonneg: "0 \<le> x \<Longrightarrow> 0 \<le> round_half_even x"
  by (auto simp: round_half_even_def Let_def)

lemma ilog2_lower:
  assumes "0 < x"
  shows "2 powi (ilog2 x) \<le> x"
proof -
  obtain p q where pq: "quotient_of x = (p, q)" by (cases "quotient_of x") auto
  then have q: "0 < q" and x: "x = of_int p / of_int q"
    using quotient_of_denom_pos quotient_of_div by auto
  with assms have p: "0 < p" by (simp add: zero_less_divide_iff)
  define k where "k = bitlen p - bitlen q"
  show ?thesis
  proof (cases "2 powi k \<le> x")
    case True
    then show ?thesis by (simp add: ilog2_def pq k_def Let_def)
  next
    case False
    then have il: "ilog2 x = k - 1" by (simp add: ilog2_def pq k_def Let_def)
    from bitlen_bounds [OF p] have lp: "(2::int) ^ nat (bitlen p - 1) \<le> p" by simp
    from bitlen_bounds [OF q] have uq: "q < 2 ^ nat (bitlen q)" by simp
    have bp: "1 \<le> bitlen p" using p bitlen_eq_zero_iff [of p] bitlen_nonneg [of p] by linarith
    have bq: "1 \<le> bitlen q" using q bitlen_eq_zero_iff [of q] bitlen_nonneg [of q] by linarith
    from lp have lp': "(2::rat) ^ nat (bitlen p - 1) \<le> of_int p"
      by (metis of_int_le_iff of_int_numeral of_int_power)
    from uq have uq': "(of_int q :: rat) \<le> 2 ^ nat (bitlen q)"
      by (metis less_imp_le of_int_le_iff of_int_numeral of_int_power)
    have "(2::rat) powi (k - 1) = 2 powi int (nat (bitlen p - 1)) / 2 powi int (nat (bitlen q))"
      using bp bq by (simp add: k_def power_int_diff [symmetric] algebra_simps)
    also have "\<dots> = 2 ^ nat (bitlen p - 1) / 2 ^ nat (bitlen q)"
      by (simp only: power_int_of_nat)
    also have "\<dots> \<le> of_int p / of_int q"
      using lp' uq' q p by (intro frac_le) auto
    finally show ?thesis using il x by simp
  qed
qed

lemma binary64_error: "\<bar>binary64 x - x\<bar> \<le> \<bar>x\<bar> / 2 ^ 53 + 1 / 2 ^ 54"
proof (cases "x = 0")
  case True
  then show ?thesis by (simp add: binary64_def)
next
  case False
  define e where "e = max (ilog2 \<bar>x\<bar> - 52) (- 1074)"
  define p :: rat where "p = 2 powi e"
  define S :: rat where "S = 2 powi (- 53)"
  define A :: rat where "A = \<bar>x\<bar> / 2 ^ 52"
  have p0: "0 < p" by (simp add: p_def)
  have A0: "0 \<le> A" by (simp add: A_def)
  have S0: "0 \<le> S" unfolding S_def by (rule zero_le_power_int) simp
  have S: "S = 1 / 2 ^ 53" by (simp add: S_def power_int_minus field_simps)
  have b: "binary64 x = of_int (round_half_even (x / p)) * p"
    using False by (simp add: binary64_def e_def p_def Let_def)
  have "binary64 x - x = (of_int (round_half_even (x / p)) - x / p) * p"
    using p0 by (simp add: b left_diff_distrib)
  then have "\<bar>binary64 x - x\<bar> = \<bar>of_int (round_half_even (x / p)) - x / p\<bar> * p"
    using p0 by (simp add: abs_mult)
  also have "\<dots> \<le> 1 / 2 * p"
    using p0 round_half_even_error [of "x / p"] by (intro mult_right_mono) auto
  finally have err: "\<bar>binary64 x - x\<bar> \<le> p / 2" by simp
  have "p \<le> A + S"
  proof (cases "ilog2 \<bar>x\<bar> - 52 \<le> - 1074")
    case True
    then have "e = - 1074" by (simp add: e_def)
    then have "p = 2 powi (- 1074)" by (simp only: p_def)
    also have "\<dots> \<le> S" unfolding S_def by (rule power_int_increasing) simp_all
    finally show ?thesis using A0 by linarith
  next
    case False
    then have "e = ilog2 \<bar>x\<bar> - 52" by (simp add: e_def)
    then have "p = 2 powi (ilog2 \<bar>x\<bar>) / 2 ^ 52"
      by (simp add: p_def power_int_diff)
    also have "\<dots> \<le> A"
      unfolding A_def using ilog2_lower [of "\<bar>x\<bar>"] \<open>x \<noteq> 0\<close>
      by (intro divide_right_mono) auto
    finally show ?thesis using S0 by linarith
  qed
  with err have "\<bar>binary64 x - x\<bar> \<le> A / 2 + S / 2" by linarith
  also have "A / 2 = \<bar>x\<bar> / 2 ^ 53" by (simp add: A_def)
  also have "S / 2 = 1 / 2 ^ 54" by (simp add: S)
  finally show ?thesis .
qed

lemma binary64_nonneg: "0 \<le> x \<Longrightarrow> 0 \<le> binary64 x"
  by (auto simp: binary64_def Let_def intro!: mult_nonneg_nonneg round_half_even_nonneg)


lemma fromtimestamp_of_quotient:
  fixes ms :: int
  assumes lo: "0 \<le> ms" and hi: "ms < 2 ^ 32 * 1000"
  shows "fromtimestamp (binary64 (of_int ms / 1000)) =
           utc_datetime (ms div 1000) (ms mod 1000 * 1000)"
proof -
  define q :: rat where "q = of_int ms / 1000"
  define d where "d = binary64 q"
  define t where "t = \<lfloor>d\<rfloor>"
  define y where "y = (d - of_int t) * 1000000"
  define N where "N = ms * 1000 - t * 1000000"
  have q0: "0 \<le> q" using lo by (simp add: q_def)
  have qhi: "q < 2 ^ 32" using hi by (simp add: q_def)
  have d0: "0 \<le> d" unfolding d_def using q0 by (rule binary64_nonneg)
  have "\<bar>d - q\<bar> \<le> \<bar>q\<bar> / 2 ^ 53 + 1 / 2 ^ 54" unfolding d_def by (rule binary64_error)
  with q0 qhi have dq: "\<bar>d - q\<bar> \<le> 2 ^ 32 / 2 ^ 53 + 1 / 2 ^ 54" by simp
  have fr: "0 \<le> d - of_int t" "d - of_int t < 1" unfolding t_def by linarith+
  then have y0: "0 \<le> y" and yhi: "y < 1000000" by (simp_all add: y_def)
  have "\<bar>binary64 y - y\<bar> \<le> \<bar>y\<bar> / 2 ^ 53 + 1 / 2 ^ 54" by (rule binary64_error)
  with y0 yhi have eb: "\<bar>binary64 y - y\<bar> \<le> 1000000 / 2 ^ 53 + 1 / 2 ^ 54" by simp
  have yN: "y - of_int N = (d - q) * 1000000"
    by (simp add: y_def N_def q_def algebra_simps)
  have "\<bar>d - q\<bar> * 1000000 = \<bar>(d - q) * 1000000\<bar>" by (rule abs_mult_pos) simp
  with yN have "\<bar>y - of_int N\<bar> = \<bar>d - q\<bar> * 1000000" by (simp only:)
  with dq have yN': "\<bar>y - of_int N\<bar> \<le> (2 ^ 32 / 2 ^ 53 + 1 / 2 ^ 54) * 1000000" by simp
  have tri: "\<bar>binary64 y - of_int N\<bar> \<le> \<bar>binary64 y - y\<bar> + \<bar>y - of_int N\<bar>" by linarith
  have "1000000 / 2 ^ 53 + 1 / 2 ^ 54 + (2 ^ 32 / 2 ^ 53 + 1 / 2 ^ 54) * 1000000 < (1 / 2 :: rat)"
    by simp
  with tri eb yN' have near: "\<bar>binary64 y - of_int N\<bar> < 1 / 2" by linarith
  then have us: "round_half_even (binary64 y) = N" by (rule round_half_even_near)
  have "(2 ^ 32 / 2 ^ 53 + 1 / 2 ^ 54) * 1000000 < (1 :: rat)" by simp
  with yN' y0 yhi have "- 1 < (of_int N :: rat)" "(of_int N :: rat) < 1000001" by linarith+
  then have "(of_int (- 1) :: rat) < of_int N" "(of_int N :: rat) < of_int 1000001"
    by simp_all
  then have "- 1 < N" "N < 1000001" by (simp_all only: of_int_less_iff)
  then have Nr: "0 \<le> N" "N \<le> 1000000" by simp_all
  have m: "modf d = (d - of_int t, of_int t)"
    using d0 by (simp add: modf_def t_def Let_def)
  have ft: "fromtimestamp d =
      (if 1000000 \<le> N then utc_datetime (t + 1) (N - 1000000)
       else utc_datetime t N)"
    unfolding fromtimestamp_def m prod.case Let_def us [unfolded y_def] floor_of_int
    using Nr by simp
  have eq: "ms * 1000 = t * 1000000 + N" by (simp add: N_def)
  have dd: "binary64 (of_int ms / 1000) = d" by (simp add: d_def q_def)
  show ?thesis
  proof (cases "1000000 \<le> N")
    case True
    with Nr have "N = 1000000" by simp
    with eq have "ms = (t + 1) * 1000" by simp
    then have "ms div 1000 = t + 1" "ms mod 1000 = 0" by simp_all
    with True \<open>N = 1000000\<close> show ?thesis by (simp add: dd ft)
  next
    case False
    define r where "r = ms - t * 1000"
    have Nr': "N = r * 1000" by (simp add: N_def r_def algebra_simps)
    with Nr False have r: "0 \<le> r" "r < 1000" by simp_all
    have ms: "ms = 1000 * t + r" by (simp add: r_def)
    have "ms div 1000 = t" using ms r by (rule int_div_pos_eq)
    moreover have "ms mod 1000 = r" using ms r by (rule int_mod_pos_eq)
    ultimately show ?thesis using False Nr' by (simp add: dd ft)
  qed
qed

lemma truediv_1000_in_range:
  fixes ms :: int
  assumes lo: "0 \<le> ms" and hi: "ms < 2 ^ 32 * 1000"
  shows "truediv ms 1000 = Inr (binary64 (of_int ms / 1000))"
proof -
  define q :: rat where "q = of_int ms / 1000"
  have q0: "0 \<le> q" using lo by (simp add: q_def)
  have qhi: "q < 2 ^ 32" using hi by (simp add: q_def)
  have d0: "0 \<le> binary64 q" using q0 by (rule binary64_nonneg)
  have "\<bar>binary64 q - q\<bar> \<le> \<bar>q\<bar> / 2 ^ 53 + 1 / 2 ^ 54" by (rule binary64_error)
  with q0 qhi have "binary64 q < 2 ^ 33" by simp
  also have "(2::rat) ^ 33 \<le> 2 ^ 1024" by (rule power_increasing) simp_all
  finally have "\<not> 2 ^ 1024 \<le> \<bar>binary64 q\<bar>" using d0 by simp
  then show ?thesis by (simp add: truediv_def q_def Let_def)
qed

lemma when_of_in_range:
  assumes "0 \<le> ds_start ds" and "ds_start ds < 2 ^ 32 * 1000"
  shows "when_of ds = utc_datetime (ds_start ds div 1000) (ds_start ds mod 1000 * 1000)"
  using assms
  by (simp add: when_of_def truediv_1000_in_range fromtimestamp_of_quotient)

lemma ord2ymd_year_bounds:
  assumes "719163 \<le> ordinal" and "ordinal < 719163 + 49711"
  shows "1 \<le> fst (ord2ymd ordinal) \<and> fst (ord2ymd ordinal) \<le> 9999"
proof -
  define n where "n = ordinal - 1"
  define n400 where "n400 = n div 146097"
  define r1 where "r1 = n mod 146097"
  define n100 where "n100 = r1 div 36524"
  define r2 where "r2 = r1 mod 36524"
  define n4 where "n4 = r2 div 1461"
  define r3 where "r3 = r2 mod 1461"
  define n1 where "n1 = r3 div 365"
  define y where "y = n400 * 400 + 1 + n100 * 100 + n4 * 4 + n1"
  have n: "0 \<le> n" "n < 6 * 146097" using assms by (simp_all add: n_def)
  have a: "0 \<le> n400" "n400 \<le> 5" using n by (simp_all add: n400_def)
  have r1: "0 \<le> r1" "r1 < 146097" by (simp_all add: r1_def)
  have b: "0 \<le> n100" "n100 \<le> 4" using r1 by (simp_all add: n100_def)
  have r2: "0 \<le> r2" "r2 < 36524" by (simp_all add: r2_def)
  have c: "0 \<le> n4" "n4 \<le> 24" using r2 by (simp_all add: n4_def)
  have r3: "0 \<le> r3" "r3 < 1461" by (simp_all add: r3_def)
  have d: "0 \<le> n1" "n1 \<le> 4" using r3 by (simp_all add: n1_def)
  have y: "1 \<le> y" "y \<le> 2501" using a b c d by (simp_all add: y_def)
  have sp: "n1 = 4 \<or> n100 = 4 \<Longrightarrow> 1 \<le> y - 1" using a b c d by (auto simp: y_def)
  have "fst (ord2ymd ordinal) = (if n1 = 4 \<or> n100 = 4 then y - 1 else y)"
    unfolding ord2ymd_def Let_def n_def [symmetric] n400_def [symmetric] r1_def [symmetric]
      n100_def [symmetric] r2_def [symmetric] n4_def [symmetric] r3_def [symmetric]
      n1_def [symmetric] y_def [symmetric]
    by (simp split: if_splits)
  with y sp show ?thesis by (auto split: if_splits)
qed

lemma utc_datetime_returns:
  assumes "0 \<le> t" and "t < 2 ^ 32"
  shows "\<exists>w. utc_datetime t us = Inr w \<and> microsecond w = us"
proof -
  have "0 \<le> t div 86400" "t div 86400 < 49711" using assms by simp_all
  then have "1 \<le> fst (ord2ymd (t div 86400 + 719163)) \<and>
             fst (ord2ymd (t div 86400 + 719163)) \<le> 9999"
    by (intro ord2ymd_year_bounds) simp_all
  moreover have "\<not> (t < - (2 ^ 63) \<or> 2 ^ 63 \<le> t)" using assms by simp
  ultimately show ?thesis
    by (cases "ord2ymd (t div 86400 + 719163)") (simp add: utc_datetime_def Let_def)
qed

lemma utc_datetime_example:
  "utc_datetime 1700000000 us =
     Inr \<lparr>year = 2023, month = 11, day = 14, hour = 22, minute = 13, second = 20,
          microsecond = us\<rparr>"
  by (simp add: utc_datetime_def ord2ymd_def days_before_month_def days_in_month_def Let_def)

text \<open>
  Claim C1, as amended. The script divides \<^verbatim>\<open>start\<close> by 1000 with \<^verbatim>\<open>/\<close>, the true division
  of Python 3, so the seconds keep their fraction. For every dataset whose \<^verbatim>\<open>start\<close> lies
  between the epoch and \<open>2 ^ 32\<close> seconds after it (early 2106), the conversion returns
  the instant \<^verbatim>\<open>start div 1000\<close> seconds after the epoch with the microsecond
  \<^verbatim>\<open>(start mod 1000) * 1000\<close>: the milliseconds are kept, neither truncated nor
  rounded. A \<^verbatim>\<open>start\<close> of 1700000000000 gives 2023-11-14T22:13:20Z.
\<close>

theorem start_keeps_milliseconds:
  assumes "0 \<le> ds_start ds" and "ds_start ds < 2 ^ 32 * 1000"
  shows "when_of ds = utc_datetime (ds_start ds div 1000) (ds_start ds mod 1000 * 1000) \<and>
         (\<exists>w. when_of ds = Inr w \<and> microsecond w = ds_start ds mod 1000 * 1000) \<and>
         (ds_start ds = 1700000000000 \<longrightarrow>
            when_of ds = Inr \<lparr>year = 2023, month = 11, day = 14, hour = 22, minute = 13,
                               second = 20, microsecond = 0\<rparr>)"
proof -
  have w: "when_of ds = utc_datetime (ds_start ds div 1000) (ds_start ds mod 1000 * 1000)"
    using assms by (rule when_of_in_range)
  have "0 \<le> ds_start ds div 1000" "ds_start ds div 1000 < 2 ^ 32"
    using assms by simp_all
  then have "\<exists>w. utc_datetime (ds_start ds div 1000) (ds_start ds mod 1000 * 1000) = Inr w \<and>
      microsecond w = ds_start ds mod 1000 * 1000"
    by (rule utc_datetime_returns)
  moreover have "ds_start ds = 1700000000000 \<longrightarrow>
      utc_datetime (ds_start ds div 1000) (ds_start ds mod 1000 * 1000) =
        Inr \<lparr>year = 2023, month = 11, day = 14, hour = 22, minute = 13,
             second = 20, microsecond = 0\<rparr>"
    by (simp add: utc_datetime_example)
  ultimately show ?thesis by (simp only: w)
qed

text \<open>The theorem at the \<^verbatim>\<open>start\<close> of the specification's example.\<close>

theorem start_keeps_milliseconds_witness:
  "when_of \<lparr>ds_id = 7, ds_testId = 1, ds_runId = 3, ds_start = 1700000000000\<rparr> =
     Inr \<lparr>year = 2023, month = 11, day = 14, hour = 22, minute = 13, second = 20,
          microsecond = 0\<rparr>"
proof -
  have "0 \<le> ds_start \<lparr>ds_id = 7, ds_testId = 1, ds_runId = 3, ds_start = 1700000000000\<rparr>"
    and "ds_start \<lparr>ds_id = 7, ds_testId = 1, ds_runId = 3, ds_start = 1700000000000\<rparr>
           < 2 ^ 32 * 1000"
    by simp_all
  from start_keeps_milliseconds [OF this] show ?thesis
    by (elim conjE) simp
qed

text \<open>
  Claim C1 as stated fails: it has the seconds divided as integers, which would give
  the microsecond 0 for every \<^verbatim>\<open>start\<close>. A \<^verbatim>\<open>start\<close> of 1700000000500 gives
  22:13:20.500000.
\<close>

theorem start_not_truncated:
  "when_of \<lparr>ds_id = 7, ds_testId = 1, ds_runId = 3, ds_start = 1700000000500\<rparr> =
     Inr \<lparr>year = 2023, month = 11, day = 14, hour = 22, minute = 13, second = 20,
          microsecond = 500000\<rparr> \<and>
   when_of \<lparr>ds_id = 7, ds_testId = 1, ds_runId = 3, ds_start = 1700000000500\<rparr> \<noteq>
     utc_datetime (1700000000500 div 1000) 0"
  using when_of_in_range
    [of "\<lparr>ds_id = 7, ds_testId = 1, ds_runId = 3, ds_start = 1700000000500\<rparr>"]
  by (simp add: utc_datetime_example)

section \<open>Properties of the generator\<close>

lemma yield_datasets_nonpositive:
  "count \<le> counter + 1 \<Longrightarrow> yield_datasets count counter (ds # rest) = ([ds], counter + 1, True)"
  by (simp add: Let_def)

lemma loop_on_error:
  "get_json (dataset_list srv test_id page limit) = Inl e \<Longrightarrow>
     horreum_datasets_loop srv test_id count limit counter page = [Requested page limit, Raised e]"
  by (subst horreum_datasets_loop.simps) simp

lemma loop_on_empty_page:
  "get_json (dataset_list srv test_id page limit) = Inr doc \<Longrightarrow> datasets_of doc = [] \<Longrightarrow>
     horreum_datasets_loop srv test_id count limit counter page = [Requested page limit]"
  by (subst horreum_datasets_loop.simps) (simp add: Let_def)

lemma requested_after_yielded:
  "map Yielded ys @ tail = pre @ Requested p l # post \<Longrightarrow>
     \<exists>pre'. tail = pre' @ Requested p l # post"
proof (induction ys arbitrary: pre)
  case Nil
  then show ?case by auto
next
  case (Cons y ys)
  then show ?case by (cases pre) auto
qed

text \<open>
  Wherever a page request stands in the sequence, what follows it is what the loop does
  from that page on, with some value of the counter.
\<close>

lemma loop_suffix:
  "horreum_datasets_loop srv test_id count limit counter page = pre @ Requested p l # post \<Longrightarrow>
     \<exists>c. horreum_datasets_loop srv test_id count limit c p = Requested p l # post \<and> l = limit"
proof (induction srv test_id count limit counter page arbitrary: pre
    rule: horreum_datasets_loop.induct)
  case (1 srv test_id count limit counter page)
  let ?out = "horreum_datasets_loop srv test_id count limit counter page"
  show ?case
  proof (cases pre)
    case Nil
    with "1.prems" have "?out = Requested p l # post" by simp
    moreover from this have "p = page" "l = limit"
      by (subst (asm) horreum_datasets_loop.simps, simp)+
    ultimately show ?thesis by auto
  next
    case (Cons x pre')
    show ?thesis
    proof (cases "get_json (dataset_list srv test_id page limit)")
      case (Inl e)
      from loop_on_error [OF Inl] "1.prems" Cons
      have "[Raised e] = pre' @ Requested p l # post" by simp
      then show ?thesis by (cases pre') auto
    next
      case (Inr doc)
      obtain ys counter' returned
        where y: "yield_datasets count counter (datasets_of doc) = (ys, counter', returned)"
        by (cases "yield_datasets count counter (datasets_of doc)") auto
      define tail where "tail =
        (if returned then [] else if length (datasets_of doc) = 0 then []
         else horreum_datasets_loop srv test_id count limit counter' (page + 1))"
      have out: "?out = Requested page limit # map Yielded ys @ tail"
        by (subst horreum_datasets_loop.simps) (simp add: Inr y Let_def tail_def)
      with "1.prems" Cons have "map Yielded ys @ tail = pre' @ Requested p l # post" by simp
      then obtain pre'' where t: "tail = pre'' @ Requested p l # post"
        using requested_after_yielded by blast
      then have "tail \<noteq> []" by simp
      then have nr: "\<not> returned" and ne: "length (datasets_of doc) \<noteq> 0"
        and rec: "tail = horreum_datasets_loop srv test_id count limit counter' (page + 1)"
        by (auto simp: tail_def split: if_splits)
      from t rec
      have "horreum_datasets_loop srv test_id count limit counter' (page + 1) =
          pre'' @ Requested p l # post"
        by simp
      from "1.IH" [OF Inr refl y [symmetric] refl nr ne this]
      show ?thesis .
    qed
  qed
qed

text \<open>
  Claim C7. When the first page fetched has no datasets (the member \<^verbatim>\<open>datasets\<close> is empty
  or absent), the generator hands out nothing and has made exactly one page request.
  And wherever in a run a requested page is empty, that request is the last thing the
  generator does.
\<close>

theorem empty_page_ends_sequence:
  "(get_json (dataset_list srv test_id page limit) = Inr doc \<and> datasets_of doc = [] \<longrightarrow>
      horreum_datasets srv test_id count page limit = [Requested page limit] \<and>
      yielded_of (horreum_datasets srv test_id count page limit) = [] \<and>
      pages_of (horreum_datasets srv test_id count page limit) = [page]) \<and>
   (horreum_datasets srv test_id count page limit = pre @ Requested p l # post \<and>
      get_json (dataset_list srv test_id p l) = Inr doc' \<and> datasets_of doc' = [] \<longrightarrow>
      post = [])"
proof (intro conjI impI)
  assume a: "get_json (dataset_list srv test_id page limit) = Inr doc \<and> datasets_of doc = []"
  then show first: "horreum_datasets srv test_id count page limit = [Requested page limit]"
    by (simp add: horreum_datasets_def loop_on_empty_page)
  then show "yielded_of (horreum_datasets srv test_id count page limit) = []"
    and "pages_of (horreum_datasets srv test_id count page limit) = [page]"
    by simp_all
next
  assume a: "horreum_datasets srv test_id count page limit = pre @ Requested p l # post \<and>
      get_json (dataset_list srv test_id p l) = Inr doc' \<and> datasets_of doc' = []"
  then obtain c where "horreum_datasets_loop srv test_id count limit c p = Requested p l # post"
    and "l = limit"
    unfolding horreum_datasets_def using loop_suffix by blast
  with a loop_on_empty_page [of srv test_id p limit doc' count c] show "post = []"
    by simp
qed

lemma example_first_page:
  "get_json (dataset_list (paged_source (example_items 30)) 1 1 10) =
     Inr (Some (take 10 (example_items 30)))"
  by (simp add: paged_source_def get_json_def)

text \<open>
  The theorem on a server with no datasets; and a run in which the second page is the
  empty one, after ten datasets of the first.
\<close>

theorem empty_page_ends_sequence_witness:
  "horreum_datasets (paged_source []) 1 100 1 10 = [Requested 1 10] \<and>
   horreum_datasets (paged_source (example_items 10)) 1 100 1 10 =
     (Requested 1 10 # map Yielded (example_items 10)) @ [Requested 2 10] \<and>
   get_json (dataset_list (paged_source (example_items 10)) 1 2 10) = Inr (Some [])"
proof -
  have "get_json (dataset_list (paged_source []) 1 1 10) = Inr (Some []) \<and>
      datasets_of (Some []) = []"
    by (simp add: paged_source_def get_json_def datasets_of_def)
  with empty_page_ends_sequence [of "paged_source []" 1 1 10 "Some []" 100]
  have a: "horreum_datasets (paged_source []) 1 100 1 10 = [Requested 1 10]" by blast
  have b: "horreum_datasets (paged_source (example_items 10)) 1 100 1 10 =
     (Requested 1 10 # map Yielded (example_items 10)) @ [Requested 2 10]"
    by code_simp
  have c: "get_json (dataset_list (paged_source (example_items 10)) 1 2 10) = Inr (Some [])"
    by code_simp
  from a b c show ?thesis by (intro conjI)
qed

text \<open>
  Claim C8, as amended. The statuses that are fatal are those for which
  \<^verbatim>\<open>raise_for_status\<close> raises: 400 to 599. When a page request of the listing is answered
  with such a status, the only thing the generator does after the request is raise
  \<^verbatim>\<open>HTTPError\<close>: it hands out no dataset of that page and requests nothing more. When the
  request for the label values of a dataset is answered with such a status,
  \<^verbatim>\<open>_horreum_labelvalues\<close> raises \<^verbatim>\<open>HTTPError\<close> and returns no dictionary. For every other
  status \<^verbatim>\<open>raise_for_status\<close> returns, and a body that is a JSON document is decoded and
  used.
\<close>

theorem bad_status_is_fatal:
  "(horreum_datasets srv test_id count page limit = pre @ Requested p l # post \<and>
      dataset_list srv test_id p l = Reply status_code body \<and>
      400 \<le> status_code \<and> status_code < 600 \<longrightarrow>
      post = [Raised (HTTPError status_code)]) \<and>
   (dataset_labelValues srv dataset_id = Reply status_code body' \<and>
      400 \<le> status_code \<and> status_code < 600 \<longrightarrow>
      horreum_labelvalues srv dataset_id = Inl (HTTPError status_code)) \<and>
   (\<not> (400 \<le> status_code \<and> status_code < 600) \<longrightarrow>
      get_json (Reply status_code (Some doc)) = Inr doc)"
proof (intro conjI impI)
  assume a: "horreum_datasets srv test_id count page limit = pre @ Requested p l # post \<and>
      dataset_list srv test_id p l = Reply status_code body \<and>
      400 \<le> status_code \<and> status_code < 600"
  then obtain c where "horreum_datasets_loop srv test_id count limit c p = Requested p l # post"
    and "l = limit"
    unfolding horreum_datasets_def using loop_suffix by blast
  moreover from a have "get_json (dataset_list srv test_id p l) = Inl (HTTPError status_code)"
    by (simp add: get_json_def)
  ultimately show "post = [Raised (HTTPError status_code)]"
    using loop_on_error [of srv test_id p limit "HTTPError status_code" count c] by simp
next
  assume "dataset_labelValues srv dataset_id = Reply status_code body' \<and>
      400 \<le> status_code \<and> status_code < 600"
  then show "horreum_labelvalues srv dataset_id = Inl (HTTPError status_code)"
    by (simp add: horreum_labelvalues_def get_json_def)
next
  assume "\<not> (400 \<le> status_code \<and> status_code < 600)"
  then show "get_json (Reply status_code (Some doc)) = Inr doc"
    by (simp add: get_json_def)
qed

text \<open>
  The theorem on a server whose second page fails, after the ten datasets of the first
  page were handed out, on a server whose label values fail, and on a page that is
  answered with the status 300.
\<close>

theorem bad_status_is_fatal_witness:
  "horreum_datasets flaky_source 1 100 1 10 =
     (Requested 1 10 # map Yielded (example_items 10)) @
       [Requested 2 10, Raised (HTTPError 503)] \<and>
   horreum_labelvalues failing_source 5 = Inl (HTTPError 503) \<and>
   get_json (dataset_list redirect_source 1 1 10) = Inr (Some [example_dataset 1])"
proof -
  define post where "post = drop 12 (horreum_datasets flaky_source 1 100 1 10)"
  have ev: "horreum_datasets flaky_source 1 100 1 10 =
      (Requested 1 10 # map Yielded (example_items 10)) @ Requested 2 10 # post"
    unfolding post_def by code_simp
  have r: "dataset_list flaky_source 1 2 10 = Reply 503 None \<and> (400::nat) \<le> 503 \<and>
      (503::nat) < 600"
    by (simp add: flaky_source_def)
  have l: "dataset_labelValues failing_source 5 = Reply 503 None \<and> (400::nat) \<le> 503 \<and>
      (503::nat) < 600"
    by (simp add: failing_source_def)
  from bad_status_is_fatal
    [where srv = flaky_source and test_id = 1 and count = 100 and page = 1 and limit = 10
       and pre = "Requested 1 10 # map Yielded (example_items 10)" and p = 2 and l = 10
       and post = post and status_code = 503 and body = None, THEN conjunct1]
    ev r
  have a: "post = [Raised (HTTPError 503)]" by blast
  from bad_status_is_fatal
    [where srv = failing_source and dataset_id = 5 and status_code = 503 and body' = None,
     THEN conjunct2, THEN conjunct1] l
  have b: "horreum_labelvalues failing_source 5 = Inl (HTTPError 503)" by blast
  from bad_status_is_fatal
    [where status_code = 300 and doc = "Some [example_dataset 1]",
     THEN conjunct2, THEN conjunct2]
  have "get_json (Reply 300 (Some (Some [example_dataset 1]))) = Inr (Some [example_dataset 1])"
    by simp
  then have c: "get_json (dataset_list redirect_source 1 1 10) =
      Inr (Some [example_dataset 1])"
    by (simp add: redirect_source_def)
  from a b c ev show ?thesis by simp
qed

text \<open>
  Claim C8 as stated fails for a status that is no success and lies outside 400 to 599:
  \<^verbatim>\<open>raise_for_status\<close> returns, and the body is decoded and used. The generator hands out
  the dataset of a page answered with the status 300 and goes on to request page 2, and
  \<^verbatim>\<open>_horreum_labelvalues\<close> returns the dictionary of an answer with the status 300.
\<close>

theorem other_status_is_not_fatal:
  "horreum_datasets redirect_source 1 100 1 10 =
     [Requested 1 10, Yielded (example_dataset 1), Requested 2 10] \<and>
   horreum_labelvalues redirect_source 1 = Inr [(''name'', Json_string ''value'')]"
  by code_simp

text \<open>
  Claim C10. The counter is compared with \<^verbatim>\<open>count\<close> only after a dataset was handed out.
  With a \<^verbatim>\<open>count\<close> of 0 or less and a first page that is not empty, the generator makes
  one page request, hands out the first dataset of the page, and returns.
\<close>

theorem nonpositive_count_yields_one:
  assumes "count \<le> 0"
    and "get_json (dataset_list srv test_id page limit) = Inr doc"
    and "datasets_of doc = ds # rest"
  shows "horreum_datasets srv test_id count page limit = [Requested page limit, Yielded ds] \<and>
         yielded_of (horreum_datasets srv test_id count page limit) = [ds] \<and>
         pages_of (horreum_datasets srv test_id count page limit) = [page]"
proof -
  from assms(1) have "yield_datasets count 0 (ds # rest) = ([ds], 1, True)"
    by (simp add: Let_def)
  with assms(2,3)
  have "horreum_datasets srv test_id count page limit = [Requested page limit, Yielded ds]"
    unfolding horreum_datasets_def
    by (subst horreum_datasets_loop.simps) (simp add: Let_def)
  then show ?thesis by simp
qed

text \<open>
  The theorem for \<^verbatim>\<open>count = -3\<close> on a server with 3 pages of 10 datasets.
\<close>

theorem nonpositive_count_yields_one_witness:
  "horreum_datasets (paged_source (example_items 30)) 1 (- 3) 1 10 =
     [Requested 1 10, Yielded (example_dataset 1)]"
proof -
  have "take 10 (example_items 30) = example_dataset 1 # tl (take 10 (example_items 30))"
    by code_simp
  then have "datasets_of (Some (take 10 (example_items 30))) =
      example_dataset 1 # tl (take 10 (example_items 30))"
    by (simp add: datasets_of_def)
  from nonpositive_count_yields_one [OF _ example_first_page this, of "- 3"]
  show ?thesis by simp
qed

text \<open>
  The bound of \<^verbatim>\<open>count\<close>. The generator hands out at most \<^verbatim>\<open>count\<close> datasets when
  \<^verbatim>\<open>count\<close> is 1 or more, and at most one dataset otherwise.
\<close>

lemma yielded_of_map [simp]: "yielded_of (map Yielded ys) = ys"
  by (induction ys) simp_all

lemma yielded_of_append_map [simp]:
  "yielded_of (map Yielded ys @ evs) = ys @ yielded_of evs"
  by (induction ys) simp_all

lemma yield_datasets_returned:
  "yield_datasets count counter dss = (ys, c, True) \<Longrightarrow>
     int (length ys) = max 1 (count - counter)"
proof (induction dss arbitrary: counter ys c)
  case Nil
  then show ?case by simp
next
  case (Cons ds rest)
  show ?case
  proof (cases "count \<le> counter + 1")
    case True
    with Cons.prems show ?thesis by (auto simp: Let_def)
  next
    case False
    obtain ys' c' r' where rec: "yield_datasets count (counter + 1) rest = (ys', c', r')"
      by (cases "yield_datasets count (counter + 1) rest") auto
    with Cons.prems False have "ys = ds # ys'" "r' = True" by (auto simp: Let_def)
    with Cons.IH [of "counter + 1" ys' c'] rec False show ?thesis by simp
  qed
qed

lemma loop_yields_at_most:
  "int (length (yielded_of (horreum_datasets_loop srv test_id count limit counter page)))
     \<le> max 1 (count - counter)"
proof (induction srv test_id count limit counter page rule: horreum_datasets_loop.induct)
  case (1 srv test_id count limit counter page)
  let ?out = "horreum_datasets_loop srv test_id count limit counter page"
  show ?case
  proof (cases "get_json (dataset_list srv test_id page limit)")
    case (Inl e)
    then show ?thesis by (simp add: loop_on_error)
  next
    case (Inr doc)
    obtain ys counter' returned
      where y: "yield_datasets count counter (datasets_of doc) = (ys, counter', returned)"
      by (cases "yield_datasets count counter (datasets_of doc)") auto
    show ?thesis
    proof (cases returned)
      case True
      then have "?out = Requested page limit # map Yielded ys"
        by (subst horreum_datasets_loop.simps) (simp add: Inr y Let_def)
      moreover from y True have "int (length ys) = max 1 (count - counter)"
        by (simp add: yield_datasets_returned)
      ultimately show ?thesis by simp
    next
      case False
      with y have "yield_datasets count counter (datasets_of doc) = (ys, counter', False)"
        by simp
      from yield_datasets_fallthrough [OF this]
      have f: "ys = datasets_of doc" "counter' = counter + int (length (datasets_of doc))"
        "datasets_of doc \<noteq> [] \<longrightarrow> counter' < count"
        by blast+
      show ?thesis
      proof (cases "datasets_of doc = []")
        case True
        then show ?thesis using Inr by (simp add: loop_on_empty_page)
      next
        case ne: False
        then have out: "?out = Requested page limit # map Yielded ys @
            horreum_datasets_loop srv test_id count limit counter' (page + 1)"
          using False by (subst horreum_datasets_loop.simps) (simp add: Inr y Let_def)
        from ne have ne': "length (datasets_of doc) \<noteq> 0" by simp
        from "1.IH" [OF Inr refl y [symmetric] refl _ ne'] False
        have "int (length (yielded_of
            (horreum_datasets_loop srv test_id count limit counter' (page + 1))))
          \<le> max 1 (count - counter')"
          by simp
        with f ne show ?thesis by (simp add: out)
      qed
    qed
  qed
qed

lemma yields_at_most_count:
  "1 \<le> count \<Longrightarrow>
     int (length (yielded_of (horreum_datasets srv test_id count page limit))) \<le> count"
  using loop_yields_at_most [of srv test_id count limit 0 page]
  by (simp add: horreum_datasets_def)

text \<open>
  With \<^verbatim>\<open>count = 5\<close>, from page 1 with a page size of 10, on a server with 3 pages of 10
  datasets: five datasets, and no request for page 2.
\<close>

lemma count_five_stops_mid_page:
  "horreum_datasets (paged_source (example_items 30)) 1 5 1 10 =
     Requested 1 10 # map Yielded (take 5 (example_items 30))"
  by code_simp

text \<open>
  Claim C2 does not hold for every \<^verbatim>\<open>count\<close>. The docstring of \<^verbatim>\<open>_horreum_datasets\<close> calls
  \<^verbatim>\<open>count\<close> "the number of datasets to return at max"; with \<^verbatim>\<open>count = 0\<close> on the same
  server the generator hands out one dataset.
\<close>

theorem zero_count_yields_one_item:
  "length (yielded_of (horreum_datasets (paged_source (example_items 30)) 1 0 1 10)) = 1"
  by code_simp
section \<open>Properties of \<^verbatim>\<open>_db_insert\<close>\<close>

lemma row_key_values [simp]: "row_key (row_id, values_of dumps r) = natural_key r"
  by (simp add: row_key_def values_of_def natural_key_def)

lemma insert_do_nothing_Some:
  "insert_do_nothing accepts (Some rows) seq (values_of dumps r) =
     (if \<not> accepts (dumps (label_values r)) then (Inl DataError, seq)
      else if \<not> fits_row r then (Inl NumericValueOutOfRange, seq)
      else if \<not> seq < 2 ^ 31 then (Inl SequenceGeneratorLimitExceeded, seq)
      else if natural_key r \<in> set (map row_key rows) then (Inr (Some rows), seq + 1)
      else if seq \<in> set (map fst rows) then (Inl UniqueViolation, seq + 1)
      else (Inr (Some (rows @ [(seq, values_of dumps r)])), seq + 1))"
  by (simp add: insert_do_nothing_def values_of_def fits_row_def natural_key_def)

lemma execute_batch_None: "execute_batch accepts None seq (v # vs) = (Inl UndefinedTable, seq)"
  by (simp add: insert_do_nothing_def)

text \<open>
  A batch that ran through: every dictionary had values the statement takes, each took
  one value of the sequence, the old rows are still there in their order, and the new
  rows are rows of the batch with keys that are new and pairwise different; every key
  of the batch is in the table afterwards.
\<close>

lemma execute_batch_result:
  "execute_batch accepts (Some rows) seq (map (values_of dumps) data) = (Inr tbl, seq') \<Longrightarrow>
     (\<forall>v\<in>set data. valid_record accepts dumps v) \<and> seq' = seq + int (length data) \<and>
     (\<exists>new. tbl = Some (rows @ new) \<and> set (map snd new) \<subseteq> set (map (values_of dumps) data) \<and>
        distinct (map row_key new) \<and>
        set (map row_key new) \<inter> set (map row_key rows) = {} \<and>
        set (map row_key (rows @ new)) = set (map row_key rows) \<union> set (map natural_key data))"
proof (induction data arbitrary: rows seq)
  case Nil
  then show ?case by simp
next
  case (Cons v vs)
  from Cons.prems have ok: "valid_record accepts dumps v" and room: "seq < 2 ^ 31"
    by (auto simp: insert_do_nothing_Some valid_record_def split: if_splits)
  show ?case
  proof (cases "natural_key v \<in> set (map row_key rows)")
    case True
    with Cons.prems ok room
    have "execute_batch accepts (Some rows) (seq + 1) (map (values_of dumps) vs) = (Inr tbl, seq')"
      by (simp add: insert_do_nothing_Some valid_record_def)
    from Cons.IH [OF this] obtain new where
      f: "\<forall>v\<in>set vs. valid_record accepts dumps v" and q: "seq' = seq + 1 + int (length vs)"
      and t: "tbl = Some (rows @ new)"
      and s: "set (map snd new) \<subseteq> set (map (values_of dumps) vs)"
      and d: "distinct (map row_key new)"
      and i: "set (map row_key new) \<inter> set (map row_key rows) = {}"
      and k: "set (map row_key (rows @ new)) = set (map row_key rows) \<union> set (map natural_key vs)"
      by blast
    have a: "\<forall>a\<in>set (v # vs). valid_record accepts dumps a" using ok f by simp
    have q': "seq' = seq + int (length (v # vs))" using q by simp
    have c: "set (map snd new) \<subseteq> set (map (values_of dumps) (v # vs))"
      unfolding list.map list.set using s by blast
    have g: "set (map row_key (rows @ new)) =
        set (map row_key rows) \<union> set (map natural_key (v # vs))"
      unfolding list.map(2) list.set(2) using k True by blast
    from t c d i g have "\<exists>new. tbl = Some (rows @ new) \<and>
        set (map snd new) \<subseteq> set (map (values_of dumps) (v # vs)) \<and>
        distinct (map row_key new) \<and>
        set (map row_key new) \<inter> set (map row_key rows) = {} \<and>
        set (map row_key (rows @ new)) =
          set (map row_key rows) \<union> set (map natural_key (v # vs))"
      by (intro exI [of _ new] conjI)
    with a q' show ?thesis by (intro conjI)
  next
    case False
    with Cons.prems ok room
    have "execute_batch accepts (Some (rows @ [(seq, values_of dumps v)])) (seq + 1)
        (map (values_of dumps) vs) = (Inr tbl, seq')"
      by (simp add: insert_do_nothing_Some valid_record_def split: if_splits)
    from Cons.IH [OF this] obtain new where
      f: "\<forall>v\<in>set vs. valid_record accepts dumps v" and q: "seq' = seq + 1 + int (length vs)"
      and t: "tbl = Some ((rows @ [(seq, values_of dumps v)]) @ new)"
      and s: "set (map snd new) \<subseteq> set (map (values_of dumps) vs)"
      and d: "distinct (map row_key new)"
      and i: "set (map row_key new) \<inter> set (map row_key (rows @ [(seq, values_of dumps v)])) = {}"
      and k: "set (map row_key ((rows @ [(seq, values_of dumps v)]) @ new)) =
              set (map row_key (rows @ [(seq, values_of dumps v)])) \<union> set (map natural_key vs)"
      by blast
    let ?new = "(seq, values_of dumps v) # new"
    have a: "\<forall>a\<in>set (v # vs). valid_record accepts dumps a" using ok f by simp
    have q': "seq' = seq + int (length (v # vs))" using q by simp
    have b: "tbl = Some (rows @ ?new)" using t by simp
    have c: "set (map snd ?new) \<subseteq> set (map (values_of dumps) (v # vs))" using s by auto
    have d': "distinct (map row_key ?new)" using d i by auto
    have e: "set (map row_key ?new) \<inter> set (map row_key rows) = {}"
      using i False by auto
    have g: "set (map row_key (rows @ ?new)) =
        set (map row_key rows) \<union> set (map natural_key (v # vs))"
      using k by auto
    from b c d' e g have "\<exists>new. tbl = Some (rows @ new) \<and>
        set (map snd new) \<subseteq> set (map (values_of dumps) (v # vs)) \<and>
        distinct (map row_key new) \<and>
        set (map row_key new) \<inter> set (map row_key rows) = {} \<and>
        set (map row_key (rows @ new)) =
          set (map row_key rows) \<union> set (map natural_key (v # vs))"
      by (intro exI [of _ ?new] conjI)
    with a q' show ?thesis by (intro conjI)
  qed
qed

text \<open>
  A batch runs through when the values of every dictionary are taken, the sequence has
  a value for each of them, and no row holds a value of \<^verbatim>\<open>id\<close> that the sequence has
  yet to hand out.
\<close>

lemma execute_batch_succeeds:
  "\<forall>v\<in>set data. valid_record accepts dumps v \<Longrightarrow> seq + int (length data) \<le> 2 ^ 31 \<Longrightarrow>
   list_all (\<lambda>r. fst r < seq) rows \<Longrightarrow>
     \<exists>tbl. execute_batch accepts (Some rows) seq (map (values_of dumps) data) =
              (Inr (Some tbl), seq + int (length data)) \<and>
           list_all (\<lambda>r. fst r < seq + int (length data)) tbl"
proof (induction data arbitrary: rows seq)
  case Nil
  then show ?case by simp
next
  case (Cons v vs)
  from Cons.prems have ok: "accepts (dumps (label_values v))" "fits_row v" and room: "seq < 2 ^ 31"
    and fresh: "seq \<notin> set (map fst rows)"
    by (auto simp: valid_record_def list_all_iff)
  have rest: "\<forall>v\<in>set vs. valid_record accepts dumps v" "seq + 1 + int (length vs) \<le> 2 ^ 31"
    using Cons.prems by simp_all
  show ?case
  proof (cases "natural_key v \<in> set (map row_key rows)")
    case True
    from Cons.prems(3) have "list_all (\<lambda>r. fst r < seq + 1) rows"
      by (auto simp: list_all_iff)
    from Cons.IH [OF rest this] True ok room show ?thesis
      by (simp add: insert_do_nothing_Some add.assoc)
  next
    case False
    from Cons.prems(3) have "list_all (\<lambda>r. fst r < seq + 1) (rows @ [(seq, values_of dumps v)])"
      by (auto simp: list_all_iff)
    from Cons.IH [OF rest this] False ok room fresh show ?thesis
      by (simp add: insert_do_nothing_Some add.assoc)
  qed
qed

text \<open>
  A batch whose keys are all in the table leaves the table as it is; it needs the
  sequence all the same.
\<close>

lemma execute_batch_absorbed:
  "\<forall>v\<in>set data. valid_record accepts dumps v \<and> natural_key v \<in> set (map row_key rows) \<Longrightarrow>
   seq + int (length data) \<le> 2 ^ 31 \<Longrightarrow>
     execute_batch accepts (Some rows) seq (map (values_of dumps) data) =
       (Inr (Some rows), seq + int (length data))"
proof (induction data arbitrary: seq)
  case Nil
  then show ?case by simp
next
  case (Cons v vs)
  from Cons.prems have "\<forall>v\<in>set vs. valid_record accepts dumps v \<and>
      natural_key v \<in> set (map row_key rows)"
    and "seq + 1 + int (length vs) \<le> 2 ^ 31"
    by simp_all
  from Cons.IH [OF this] Cons.prems show ?case
    by (simp add: insert_do_nothing_Some valid_record_def add.assoc)
qed

lemma db_insert_cases:
  "db_insert dumps conn data =
     (if closes conn > 0 then (Inl InterfaceError, conn)
      else if aborted conn \<and> data \<noteq> [] then (Inl InFailedSqlTransaction, conn)
      else (case execute_batch (jsonb_in conn) (txn conn) (id_seq conn)
                   (map (values_of dumps) data) of
              (Inl e, seq) \<Rightarrow> (Inl e, conn\<lparr>txn := stored conn, aborted := True, id_seq := seq\<rparr>)
            | (Inr tbl, seq) \<Rightarrow>
                (Inr (), conn\<lparr>stored := tbl, txn := tbl, aborted := False,
                           commits := commits conn + 1, id_seq := seq\<rparr>)))"
  by (simp add: db_insert_def commit_def Let_def split: sum.splits prod.splits)

text \<open>
  Claim C6. A call of \<^verbatim>\<open>_db_insert\<close> that returns has committed exactly once, and the
  committed table is the table of the transaction with the whole batch applied: the old
  rows, then one row for each new natural key of the batch, conflicts skipped. A call
  that raises has not committed: the committed table is what it was, and no row of the
  batch is in it.
\<close>

theorem db_insert_all_or_nothing:
  assumes "db_insert dumps conn data_list = (res, conn')"
  shows "(res = Inr () \<longrightarrow>
            commits conn' = commits conn + 1 \<and> txn conn' = stored conn' \<and>
            closes conn' = closes conn \<and>
            (\<forall>rows. txn conn = Some rows \<longrightarrow>
               (\<forall>v\<in>set data_list. fits_row v) \<and>
               (\<exists>new. stored conn' = Some (rows @ new) \<and>
                  set (map snd new) \<subseteq> set (map (values_of dumps) data_list) \<and>
                  distinct (map row_key new) \<and>
                  set (map row_key new) \<inter> set (map row_key rows) = {} \<and>
                  set (map row_key (rows @ new)) =
                    set (map row_key rows) \<union> set (map natural_key data_list)))) \<and>
         (\<forall>e. res = Inl e \<longrightarrow>
            commits conn' = commits conn \<and> stored conn' = stored conn \<and>
            closes conn' = closes conn)"
proof (cases "closes conn > 0 \<or> (aborted conn \<and> data_list \<noteq> [])")
  case True
  with assms show ?thesis by (auto simp: db_insert_cases split: if_splits)
next
  case False
  obtain r seq where eb: "execute_batch (jsonb_in conn) (txn conn) (id_seq conn)
      (map (values_of dumps) data_list) = (r, seq)"
    by (cases "execute_batch (jsonb_in conn) (txn conn) (id_seq conn)
      (map (values_of dumps) data_list)") auto
  show ?thesis
  proof (cases r)
    case (Inl e)
    with assms False eb show ?thesis by (auto simp: db_insert_cases split: if_splits)
  next
    case (Inr tbl)
    with assms False eb have r: "res = Inr ()"
      and c: "conn' = conn\<lparr>stored := tbl, txn := tbl, aborted := False,
          commits := commits conn + 1, id_seq := seq\<rparr>"
      by (auto simp: db_insert_cases split: if_splits)
    have "\<forall>rows. txn conn = Some rows \<longrightarrow>
        (\<forall>v\<in>set data_list. fits_row v) \<and>
        (\<exists>new. tbl = Some (rows @ new) \<and>
           set (map snd new) \<subseteq> set (map (values_of dumps) data_list) \<and>
           distinct (map row_key new) \<and>
           set (map row_key new) \<inter> set (map row_key rows) = {} \<and>
           set (map row_key (rows @ new)) =
             set (map row_key rows) \<union> set (map natural_key data_list))"
    proof (intro allI impI)
      fix rows assume "txn conn = Some rows"
      with eb Inr have "execute_batch (jsonb_in conn) (Some rows) (id_seq conn)
          (map (values_of dumps) data_list) = (Inr tbl, seq)"
        by simp
      from execute_batch_result [OF this]
      show "(\<forall>v\<in>set data_list. fits_row v) \<and>
        (\<exists>new. tbl = Some (rows @ new) \<and>
           set (map snd new) \<subseteq> set (map (values_of dumps) data_list) \<and>
           distinct (map row_key new) \<and>
           set (map row_key new) \<inter> set (map row_key rows) = {} \<and>
           set (map row_key (rows @ new)) =
             set (map row_key rows) \<union> set (map natural_key data_list))"
        by (simp add: valid_record_def)
    qed
    with r c show ?thesis by simp
  qed
qed

text \<open>
  The texts of the examples: the dictionary without labels is written as an empty
  object, which the example server takes; the text of the dictionary with the
  character NUL has the escape in it, and the example server refuses it.
\<close>

lemma example_texts:
  "example_dumps [] = ''{}''"
  "example_jsonb_in ''{}''"
  "\<not> example_jsonb_in (example_dumps [(''note'', Json_string [CHR 0x00])])"
  by code_simp+

text \<open>
  A batch of three dictionaries with one conflict is committed as two rows by one
  commit, and has taken three values of the sequence; a batch whose second dictionary
  has a dataset id of \<open>2 ^ 31\<close> raises, and its first row is not committed.
\<close>

theorem db_insert_all_or_nothing_witness:
  "db_insert example_dumps fresh_connection [example_row 1, example_row 2, example_row 1] =
     (Inr (), (connection_with [example_stored 1 1, example_stored 2 2] 4)\<lparr>commits := 1\<rparr>) \<and>
   db_insert example_dumps fresh_connection [example_row 1, example_row (2 ^ 31)] =
     (Inl NumericValueOutOfRange, fresh_connection\<lparr>aborted := True, id_seq := 2\<rparr>) \<and>
   commits (snd (db_insert example_dumps fresh_connection
     [example_row 1, example_row 2, example_row 1])) = commits fresh_connection + 1 \<and>
   stored (snd (db_insert example_dumps fresh_connection [example_row 1, example_row (2 ^ 31)])) =
     stored fresh_connection \<and>
   commits (snd (db_insert example_dumps fresh_connection [example_row 1, example_row (2 ^ 31)])) =
     commits fresh_connection"
proof -
  have good: "db_insert example_dumps fresh_connection
      [example_row 1, example_row 2, example_row 1] =
     (Inr (), (connection_with [example_stored 1 1, example_stored 2 2] 4)\<lparr>commits := 1\<rparr>)"
    by (simp add: db_insert_cases insert_do_nothing_Some fresh_connection_def
        connection_with_def example_stored_def example_row_def example_texts
        fits_row_def fits_integer_def natural_key_def)
  have bad: "db_insert example_dumps fresh_connection [example_row 1, example_row (2 ^ 31)] =
     (Inl NumericValueOutOfRange, fresh_connection\<lparr>aborted := True, id_seq := 2\<rparr>)"
    by (simp add: db_insert_cases insert_do_nothing_Some fresh_connection_def
        connection_with_def example_row_def example_texts
        fits_row_def fits_integer_def natural_key_def)
  from db_insert_all_or_nothing [OF good] db_insert_all_or_nothing [OF bad] good bad
  show ?thesis by simp
qed

text \<open>
  What a call that returned, and a call that raised, have done to the connection.
\<close>

lemma db_insert_returned:
  assumes "db_insert dumps conn data = (Inr u, conn')"
  shows "closes conn = 0 \<and> (data \<noteq> [] \<longrightarrow> \<not> aborted conn) \<and>
         (\<exists>tbl seq.
            execute_batch (jsonb_in conn) (txn conn) (id_seq conn) (map (values_of dumps) data) =
              (Inr tbl, seq) \<and>
            conn' = conn\<lparr>stored := tbl, txn := tbl, aborted := False,
                         commits := commits conn + 1, id_seq := seq\<rparr>)"
  using assms by (auto simp: db_insert_cases split: if_splits sum.splits prod.splits)

lemma db_insert_raised:
  assumes "db_insert dumps conn data = (Inl e, conn')"
  shows "commits conn' = commits conn \<and> stored conn' = stored conn \<and>
         closes conn' = closes conn \<and> elsewhere conn' = elsewhere conn \<and>
         jsonb_in conn' = jsonb_in conn \<and> (stored conn = txn conn \<longrightarrow> stored conn' = txn conn')"
  using assms by (auto simp: db_insert_cases split: if_splits sum.splits prod.splits)

text \<open>
  The calls that raise whatever the batch holds: on a closed connection, and in a
  failed transaction; and a batch that raises although its key values fit, because
  the text of the label values is refused.
\<close>

lemma db_insert_closed:
  "closes conn > 0 \<Longrightarrow> db_insert dumps conn data = (Inl InterfaceError, conn)"
  by (simp add: db_insert_cases)

lemma db_insert_failed_transaction:
  "closes conn = 0 \<Longrightarrow> aborted conn \<Longrightarrow> data \<noteq> [] \<Longrightarrow>
     db_insert dumps conn data = (Inl InFailedSqlTransaction, conn)"
  by (simp add: db_insert_cases)

lemma db_insert_after_raise:
  assumes "db_insert dumps conn data = (Inl e, conn')" and "closes conn = 0" and "later \<noteq> []"
  shows "db_insert dumps conn' later = (Inl InFailedSqlTransaction, conn')"
  using assms by (auto simp: db_insert_cases split: if_splits sum.splits prod.splits)

lemma db_insert_refused_text:
  "closes conn = 0 \<Longrightarrow> \<not> aborted conn \<Longrightarrow> txn conn = Some rows \<Longrightarrow>
   \<not> jsonb_in conn (dumps (label_values r)) \<Longrightarrow>
     db_insert dumps conn [r] =
       (Inl DataError, conn\<lparr>txn := stored conn, aborted := True\<rparr>)"
  by (simp add: db_insert_cases insert_do_nothing_Some)

lemma stored_keys_simps [simp]:
  "stored_keys None = {}" "stored_keys (Some rows) = set (map row_key rows)"
  by (simp_all add: stored_keys_def)

lemma keys_distinct_simps [simp]:
  "keys_distinct None" "keys_distinct (Some rows) = distinct (map row_key rows)"
  by (simp_all add: keys_distinct_def)

lemma disjoint_subset_empty: "A \<inter> B = {} \<Longrightarrow> A \<subseteq> B \<Longrightarrow> A = {}"
  by auto

lemma filter_key_absent:
  "k \<notin> set (map row_key new) \<Longrightarrow> filter (\<lambda>r. row_key r = k) new = []"
  by (induction new) auto

text \<open>
  No call leaves a second row under a natural key, whether it returns or raises: the
  rows stored under a key stay as they are.
\<close>

lemma db_insert_no_duplicates:
  assumes c: "db_insert dumps conn data_list = (res, conn1)"
    and t: "txn conn = Some rows" and s: "stored conn = Some rows"
  shows "\<exists>new. stored conn1 = Some (rows @ new) \<and>
           (\<forall>k\<in>set (map row_key rows).
              filter (\<lambda>r. row_key r = k) (rows @ new) = filter (\<lambda>r. row_key r = k) rows) \<and>
           (distinct (map row_key rows) \<longrightarrow> distinct (map row_key (rows @ new))) \<and>
           (set (map natural_key data_list) \<subseteq> set (map row_key rows) \<longrightarrow> new = [])"
proof (cases res)
  case (Inl e)
  from db_insert_raised [OF c [unfolded Inl]] s have "stored conn1 = Some (rows @ [])" by simp
  then show ?thesis by (intro exI [of _ "[]"]) simp
next
  case (Inr u)
  from db_insert_returned [OF c [unfolded Inr]] t obtain tbl seq where
    eb: "execute_batch (jsonb_in conn) (Some rows) (id_seq conn) (map (values_of dumps) data_list) =
        (Inr tbl, seq)"
    and c1: "stored conn1 = tbl"
    by auto
  from execute_batch_result [OF eb] obtain new where
    tn: "tbl = Some (rows @ new)" and d: "distinct (map row_key new)"
    and i: "set (map row_key new) \<inter> set (map row_key rows) = {}"
    and k: "set (map row_key (rows @ new)) =
            set (map row_key rows) \<union> set (map natural_key data_list)"
    by blast
  have cnt: "\<forall>k\<in>set (map row_key rows).
      filter (\<lambda>r. row_key r = k) (rows @ new) = filter (\<lambda>r. row_key r = k) rows"
  proof
    fix k assume "k \<in> set (map row_key rows)"
    with i have "k \<notin> set (map row_key new)" by blast
    then show "filter (\<lambda>r. row_key r = k) (rows @ new) = filter (\<lambda>r. row_key r = k) rows"
      by (simp add: filter_key_absent)
  qed
  have dist: "distinct (map row_key rows) \<longrightarrow> distinct (map row_key (rows @ new))"
    using d i by auto
  have full: "set (map natural_key data_list) \<subseteq> set (map row_key rows) \<longrightarrow> new = []"
  proof
    assume "set (map natural_key data_list) \<subseteq> set (map row_key rows)"
    with k have "set (map row_key rows) \<union> set (map row_key new) \<subseteq> set (map row_key rows)"
      by (simp only: map_append set_append) blast
    then have "set (map row_key new) \<subseteq> set (map row_key rows)" by blast
    with i have "set (map row_key new) = {}" by (rule disjoint_subset_empty)
    then show "new = []" by simp
  qed
  from c1 tn have "stored conn1 = Some (rows @ new)" by simp
  with cnt dist full show ?thesis by (intro exI [of _ new] conjI)
qed

text \<open>
  A call returns on a connection that is ready when the values of every dictionary
  are taken and the sequence has a value for each of them, whatever rows are stored.
\<close>

lemma db_insert_returns:
  assumes r: "ready conn" and v: "\<forall>v\<in>set data. valid_record (jsonb_in conn) dumps v"
    and q: "id_seq conn + int (length data) \<le> 2 ^ 31"
  shows "\<exists>conn'. db_insert dumps conn data = (Inr (), conn') \<and> ready conn' \<and>
           jsonb_in conn' = jsonb_in conn \<and> id_seq conn' = id_seq conn + int (length data)"
proof -
  from r obtain rows where o: "closes conn = 0" "\<not> aborted conn" and t: "txn conn = Some rows"
    and b: "list_all (\<lambda>r. fst r < id_seq conn) rows"
    by (auto simp: ready_def split: option.splits)
  from execute_batch_succeeds [OF v q b] obtain tbl where
    eb: "execute_batch (jsonb_in conn) (Some rows) (id_seq conn) (map (values_of dumps) data) =
        (Inr (Some tbl), id_seq conn + int (length data))"
    and b': "list_all (\<lambda>r. fst r < id_seq conn + int (length data)) tbl"
    by blast
  from o t eb b' show ?thesis by (simp add: db_insert_cases ready_def)
qed

text \<open>
  A call of \<^verbatim>\<open>_db_insert\<close> that returns leaves a table that holds every key of the
  batch and every key it held before; a batch whose dictionaries the table has
  absorbed leaves the table as it is.
\<close>

lemma absorbed_mono:
  "absorbed accepts dumps tbl r \<Longrightarrow> stored_keys tbl \<subseteq> stored_keys tbl' \<Longrightarrow>
     absorbed accepts dumps tbl' r"
  by (auto simp: absorbed_def)

lemma db_insert_grows:
  assumes c: "db_insert dumps conn data = (Inr u, conn')"
  shows "closes conn' = 0 \<and> \<not> aborted conn' \<and> stored conn' = txn conn' \<and>
         jsonb_in conn' = jsonb_in conn \<and> elsewhere conn' = elsewhere conn \<and>
         id_seq conn' = id_seq conn + int (length data) \<and>
         (txn conn' = None \<longrightarrow> txn conn = None) \<and>
         stored_keys (txn conn) \<subseteq> stored_keys (txn conn') \<and>
         (\<forall>r\<in>set data. absorbed (jsonb_in conn) dumps (txn conn') r) \<and>
         (keys_distinct (txn conn) \<longrightarrow> keys_distinct (txn conn'))"
proof -
  from db_insert_returned [OF c] obtain tbl seq where o: "closes conn = 0"
    and eb: "execute_batch (jsonb_in conn) (txn conn) (id_seq conn) (map (values_of dumps) data) =
        (Inr tbl, seq)"
    and c': "conn' = conn\<lparr>stored := tbl, txn := tbl, aborted := False,
        commits := commits conn + 1, id_seq := seq\<rparr>"
    by blast
  have "seq = id_seq conn + int (length data) \<and> (tbl = None \<longrightarrow> txn conn = None) \<and>
      stored_keys (txn conn) \<subseteq> stored_keys tbl \<and>
      (\<forall>r\<in>set data. absorbed (jsonb_in conn) dumps tbl r) \<and>
      (keys_distinct (txn conn) \<longrightarrow> keys_distinct tbl)"
  proof (cases "txn conn")
    case None
    with eb have "data = []" by (cases data) (simp_all add: insert_do_nothing_def)
    with eb None show ?thesis by simp
  next
    case (Some rows)
    from execute_batch_result [OF eb [unfolded Some]] obtain new where
      f: "\<forall>v\<in>set data. valid_record (jsonb_in conn) dumps v"
      and q: "seq = id_seq conn + int (length data)"
      and t: "tbl = Some (rows @ new)" and d: "distinct (map row_key new)"
      and i: "set (map row_key new) \<inter> set (map row_key rows) = {}"
      and k: "set (map row_key (rows @ new)) = set (map row_key rows) \<union> set (map natural_key data)"
      by blast
    have "\<forall>r\<in>set data. absorbed (jsonb_in conn) dumps (Some (rows @ new)) r"
      unfolding absorbed_def stored_keys_simps k using f by simp
    moreover have "distinct (map row_key rows) \<longrightarrow> distinct (map row_key (rows @ new))"
      using d i by auto
    ultimately show ?thesis using q t Some by simp
  qed
  with o c' show ?thesis by simp
qed

lemma db_insert_absorbed:
  assumes o: "closes conn = 0" "\<not> aborted conn"
    and a: "\<forall>r\<in>set data. absorbed (jsonb_in conn) dumps (txn conn) r"
    and q: "id_seq conn + int (length data) \<le> 2 ^ 31"
  shows "\<exists>conn'. db_insert dumps conn data = (Inr (), conn') \<and> closes conn' = 0 \<and>
           \<not> aborted conn' \<and> txn conn' = txn conn \<and> stored conn' = txn conn \<and>
           jsonb_in conn' = jsonb_in conn \<and> elsewhere conn' = elsewhere conn \<and>
           id_seq conn' = id_seq conn + int (length data)"
proof (cases "txn conn")
  case None
  with a have "data = []" by (cases data) (auto simp: absorbed_def)
  with o None show ?thesis by (simp add: db_insert_cases)
next
  case (Some rows)
  from a have "\<forall>v\<in>set data. valid_record (jsonb_in conn) dumps v \<and>
      natural_key v \<in> set (map row_key rows)"
    by (simp add: absorbed_def Some)
  from execute_batch_absorbed [OF this q] o Some show ?thesis
    by (simp add: db_insert_cases)
qed

text \<open>
  The same batch once more, on the connection the first call left, while the sequence
  has values for it: the call returns and the committed table stays as it is.
\<close>

lemma db_insert_again:
  assumes c: "db_insert dumps conn data_list = (Inr u, conn1)"
    and q: "id_seq conn1 + int (length data_list) \<le> 2 ^ 31"
  shows "\<exists>conn2. db_insert dumps conn1 data_list = (Inr (), conn2) \<and>
           stored conn2 = stored conn1"
proof -
  from db_insert_grows [OF c] have o: "closes conn1 = 0" "\<not> aborted conn1"
    and s: "stored conn1 = txn conn1"
    and a: "\<forall>r\<in>set data_list. absorbed (jsonb_in conn1) dumps (txn conn1) r"
    by metis+
  from db_insert_absorbed [OF o a q] s show ?thesis by auto
qed

section \<open>Properties of the run\<close>

text \<open>
  One pass through the loop body, and the whole loop, seen through the log: every call
  of \<^verbatim>\<open>_db_insert\<close> from inside the loop has a list of exactly 10 rows, the buffer goes
  into the next iteration with fewer than 10 rows, and nobody closes the connection.
\<close>

lemma db_insert_closes:
  "db_insert dumps conn data = (res, conn') \<Longrightarrow> closes conn' = closes conn"
  by (auto simp: db_insert_cases split: if_splits sum.splits prod.splits)

lemma append_and_flush_short:
  "length buf < 9 \<Longrightarrow>
     append_and_flush dumps r buf st =
       (Inr (buf @ [r]), st\<lparr>peak := max (peak st) (Suc (length buf))\<rparr>)"
  by (simp add: append_and_flush_def Let_def)

lemma append_and_flush_full:
  "length buf = 9 \<Longrightarrow>
     append_and_flush dumps r buf st =
       (case db_insert dumps (db_conn st) (buf @ [r]) of
          (Inl e, conn) \<Rightarrow>
            (Inl e, st\<lparr>peak := max (peak st) 10, db_conn := conn,
                      insert_log := insert_log st @ [buf @ [r]]\<rparr>)
        | (Inr u, conn) \<Rightarrow>
            (Inr [], st\<lparr>peak := max (peak st) 10, db_conn := conn,
                      insert_log := insert_log st @ [buf @ [r]]\<rparr>))"
  by (simp add: append_and_flush_def Let_def split: prod.splits sum.splits)

lemma append_and_flush_effect:
  assumes "append_and_flush dumps r buf st = (res, st')" and "length buf < 10"
  shows "closes (db_conn st') = closes (db_conn st) \<and> peak st' \<le> max (peak st) 10 \<and>
         (\<exists>new. insert_log st' = insert_log st @ new \<and> (\<forall>b\<in>set new. length b = 10) \<and>
            (\<forall>buf'. res = Inr buf' \<longrightarrow>
               length buf' < 10 \<and> length new = Suc (length buf) div 10 \<and>
               length buf' = Suc (length buf) mod 10))"
proof (cases "length buf = 9")
  case True
  obtain r' conn where d: "db_insert dumps (db_conn st) (buf @ [r]) = (r', conn)"
    by (cases "db_insert dumps (db_conn st) (buf @ [r])") auto
  from db_insert_closes [OF d] have c: "closes conn = closes (db_conn st)" .
  from assms(1) True d c have "closes (db_conn st') = closes (db_conn st)"
    and "peak st' \<le> max (peak st) 10"
    and "insert_log st' = insert_log st @ [buf @ [r]]"
    and "\<forall>buf'. res = Inr buf' \<longrightarrow> buf' = []"
    by (auto simp: append_and_flush_full split: sum.splits)
  with True show ?thesis by auto
next
  case False
  with assms(2) have "length buf < 9" by simp
  from append_and_flush_short [OF this, of dumps r st] assms(1)
  have "res = Inr (buf @ [r])" "st' = st\<lparr>peak := max (peak st) (Suc (length buf))\<rparr>"
    by simp_all
  with \<open>length buf < 9\<close> show ?thesis by auto
qed

lemma loop_body_effect:
  assumes "loop_body dumps srv ds buf st = (res, st')" and "length buf < 10"
  shows "closes (db_conn st') = closes (db_conn st) \<and> peak st' \<le> max (peak st) 10 \<and>
         (\<exists>new. insert_log st' = insert_log st @ new \<and> (\<forall>b\<in>set new. length b = 10) \<and>
            (\<forall>buf'. res = Inr buf' \<longrightarrow>
               length buf' < 10 \<and> length new = Suc (length buf) div 10 \<and>
               length buf' = Suc (length buf) mod 10))"
proof (cases "collect srv ds")
  case (Inl e)
  with assms(1) show ?thesis by (auto simp: loop_body_def Let_def)
next
  case (Inr r)
  with assms(1) have "append_and_flush dumps r buf
      (st\<lparr>http_log := http_log st @ [Get_labelValues (ds_id ds)]\<rparr>) = (res, st')"
    by (simp add: loop_body_def Let_def)
  from append_and_flush_effect [OF this assms(2)] show ?thesis by simp
qed

lemma batches_add:
  fixes a n :: nat
  shows "a div 10 + (a mod 10 + n) div 10 = (a + n) div 10"
    and "(a mod 10 + n) mod 10 = (a + n) mod 10"
proof -
  have "a + n = 10 * (a div 10) + (a mod 10 + n)" by simp
  then have "(a + n) div 10 = (10 * (a div 10) + (a mod 10 + n)) div 10" by (simp only:)
  also have "\<dots> = a div 10 + (a mod 10 + n) div 10" by (rule div_mult_self4) simp
  finally show "a div 10 + (a mod 10 + n) div 10 = (a + n) div 10" by simp
  show "(a mod 10 + n) mod 10 = (a + n) mod 10" by (rule mod_add_left_eq)
qed

lemma for_datasets_effect:
  "for_datasets dumps srv evs buf st = (res, st') \<Longrightarrow> length buf < 10 \<Longrightarrow>
     closes (db_conn st') = closes (db_conn st) \<and> peak st' \<le> max (peak st) 10 \<and>
     (\<exists>new. insert_log st' = insert_log st @ new \<and> (\<forall>b\<in>set new. length b = 10) \<and>
        (\<forall>buf'. res = Inr buf' \<longrightarrow>
           length buf' < 10 \<and>
           length new = (length buf + length (yielded_of evs)) div 10 \<and>
           length buf' = (length buf + length (yielded_of evs)) mod 10))"
proof (induction evs arbitrary: buf st)
  case Nil
  then show ?case by auto
next
  case (Cons ev evs)
  show ?case
  proof (cases ev)
    case (Requested page limit)
    with Cons.prems have "for_datasets dumps srv evs buf
        (st\<lparr>http_log := http_log st @ [Get_dataset_list page limit]\<rparr>) = (res, st')"
      by simp
    from Cons.IH [OF this Cons.prems(2)] Requested show ?thesis by simp
  next
    case (Raised e)
    with Cons.prems show ?thesis by auto
  next
    case (Yielded ds)
    obtain r1 st1 where b: "loop_body dumps srv ds buf st = (r1, st1)"
      by (cases "loop_body dumps srv ds buf st") auto
    from loop_body_effect [OF b Cons.prems(2)] obtain new1 where
      c1: "closes (db_conn st1) = closes (db_conn st)" and p1: "peak st1 \<le> max (peak st) 10"
      and l1: "insert_log st1 = insert_log st @ new1" and t1: "\<forall>b\<in>set new1. length b = 10"
      and s1: "\<forall>buf'. r1 = Inr buf' \<longrightarrow> length buf' < 10 \<and>
          length new1 = Suc (length buf) div 10 \<and> length buf' = Suc (length buf) mod 10"
      by blast
    show ?thesis
    proof (cases r1)
      case (Inl e)
      with Cons.prems(1) Yielded b have "res = Inl e" "st' = st1" by simp_all
      with c1 p1 l1 t1 show ?thesis by auto
    next
      case (Inr buf1)
      with Cons.prems(1) Yielded b have f: "for_datasets dumps srv evs buf1 st1 = (res, st')"
        by simp
      from s1 Inr have len1: "length buf1 < 10" "length new1 = Suc (length buf) div 10"
        "length buf1 = Suc (length buf) mod 10"
        by simp_all
      from Cons.IH [OF f len1(1)] obtain new2 where
        c2: "closes (db_conn st') = closes (db_conn st1)"
        and p2: "peak st' \<le> max (peak st1) 10"
        and l2: "insert_log st' = insert_log st1 @ new2"
        and t2: "\<forall>b\<in>set new2. length b = 10"
        and s2: "\<forall>buf'. res = Inr buf' \<longrightarrow> length buf' < 10 \<and>
            length new2 = (length buf1 + length (yielded_of evs)) div 10 \<and>
            length buf' = (length buf1 + length (yielded_of evs)) mod 10"
        by blast
      have a: "closes (db_conn st') = closes (db_conn st)" using c1 c2 by simp
      have b': "peak st' \<le> max (peak st) 10" using p1 p2 by simp
      have c: "insert_log st' = insert_log st @ (new1 @ new2)" using l1 l2 by simp
      have d: "\<forall>b\<in>set (new1 @ new2). length b = 10" using t1 t2 by auto
      have e: "\<forall>buf'. res = Inr buf' \<longrightarrow> length buf' < 10 \<and>
          length (new1 @ new2) = (length buf + length (yielded_of (ev # evs))) div 10 \<and>
          length buf' = (length buf + length (yielded_of (ev # evs))) mod 10"
      proof (intro allI impI)
        fix buf' assume "res = Inr buf'"
        with s2 have x: "length buf' < 10"
          "length new2 = (length buf1 + length (yielded_of evs)) div 10"
          "length buf' = (length buf1 + length (yielded_of evs)) mod 10"
          by simp_all
        from x(2) len1(2,3) batches_add(1) [of "Suc (length buf)" "length (yielded_of evs)"]
        have "length (new1 @ new2) = (Suc (length buf) + length (yielded_of evs)) div 10"
          by simp
        moreover from x(3) len1(3)
          batches_add(2) [of "Suc (length buf)" "length (yielded_of evs)"]
        have "length buf' = (Suc (length buf) + length (yielded_of evs)) mod 10" by simp
        ultimately show "length buf' < 10 \<and>
          length (new1 @ new2) = (length buf + length (yielded_of (ev # evs))) div 10 \<and>
          length buf' = (length buf + length (yielded_of (ev # evs))) mod 10"
          using x(1) Yielded by simp
      qed
      from c d e have "\<exists>new. insert_log st' = insert_log st @ new \<and>
          (\<forall>b\<in>set new. length b = 10) \<and>
          (\<forall>buf'. res = Inr buf' \<longrightarrow> length buf' < 10 \<and>
             length new = (length buf + length (yielded_of (ev # evs))) div 10 \<and>
             length buf' = (length buf + length (yielded_of (ev # evs))) mod 10)"
        by (intro exI [of _ "new1 @ new2"] conjI)
      with a b' show ?thesis by (intro conjI)
    qed
  qed
qed

text \<open>
  \<^verbatim>\<open>_db_table_init\<close> on the connection that \<^verbatim>\<open>_db_connect\<close> has just opened: it returns;
  the connection stays open, with nothing uncommitted; a table is there afterwards
  unless the name is taken off the search path.
\<close>

lemma db_table_init_new_eq:
  "db_table_init (new_connection pg) =
     (Inr (),
      if data_table pg = None \<and> \<not> data_elsewhere pg
      then (new_connection pg)\<lparr>stored := Some [], txn := Some [], commits := 1, id_seq := 1\<rparr>
      else new_connection pg)"
  by (simp add: db_table_init_def new_connection_def commit_def Let_def)

lemma db_table_init_new:
  "db_table_init (new_connection pg) = (Inr (), snd (db_table_init (new_connection pg)))"
  by (simp add: db_table_init_new_eq)

lemma db_table_init_conn:
  shows "closes (snd (db_table_init (new_connection pg))) = 0"
    and "\<not> aborted (snd (db_table_init (new_connection pg)))"
    and "stored (snd (db_table_init (new_connection pg))) =
         txn (snd (db_table_init (new_connection pg)))"
    and "jsonb_in (snd (db_table_init (new_connection pg))) = jsonb_accepts pg"
    and "elsewhere (snd (db_table_init (new_connection pg))) = data_elsewhere pg"
  unfolding db_table_init_new_eq by (simp_all add: new_connection_def)

lemma db_table_init_missing:
  "txn (snd (db_table_init (new_connection pg))) = None \<Longrightarrow> data_elsewhere pg"
  unfolding db_table_init_new_eq by (simp add: new_connection_def split: if_splits)

lemma db_table_init_exists:
  "data_table pg \<noteq> None \<or> data_elsewhere pg \<Longrightarrow>
     snd (db_table_init (new_connection pg)) = new_connection pg"
  unfolding db_table_init_new_eq by auto

lemma db_table_init_distinct:
  "keys_distinct (data_table pg) \<Longrightarrow>
     keys_distinct (txn (snd (db_table_init (new_connection pg))))"
  unfolding db_table_init_new_eq by (simp add: new_connection_def)

text \<open>
  When the only table named \<^verbatim>\<open>data\<close> is off the search path, \<^verbatim>\<open>_db_table_init\<close> creates
  nothing, and the first batch that is not empty raises \<^verbatim>\<open>UndefinedTable\<close>.
\<close>

lemma table_off_search_path:
  assumes "data_table pg = None" and "data_elsewhere pg" and "data \<noteq> []"
  shows "snd (db_table_init (new_connection pg)) = new_connection pg"
    and "fst (db_insert dumps (snd (db_table_init (new_connection pg))) data) =
         Inl UndefinedTable"
proof -
  from assms(2) show c: "snd (db_table_init (new_connection pg)) = new_connection pg"
    by (intro db_table_init_exists) simp
  from assms(3) obtain r rest where "data = r # rest" by (cases data) auto
  with assms(1) show "fst (db_insert dumps (snd (db_table_init (new_connection pg))) data) =
      Inl UndefinedTable"
    unfolding c by (simp add: db_insert_cases new_connection_def insert_do_nothing_def)
qed

text \<open>
  What \<^verbatim>\<open>upload\<close> does around the loop.
\<close>

lemma upload_unreachable:
  "\<not> reachable pg \<Longrightarrow>
     upload dumps srv pg args = \<lparr>outcome = Some OperationalError, opened = 0, final = None\<rparr>"
  by (simp add: upload_def db_connect_def)

lemma upload_reachable:
  "reachable pg \<Longrightarrow>
     upload dumps srv pg args =
       upload_with dumps srv args (snd (db_table_init (new_connection pg)))"
proof -
  assume r: "reachable pg"
  obtain res c where d: "db_table_init (new_connection pg) = (res, c)"
    by (cases "db_table_init (new_connection pg)") auto
  with db_table_init_new [of pg] have "res = Inr ()" by simp
  with r d show ?thesis by (simp add: upload_def db_connect_def)
qed

lemma upload_with_raised:
  assumes "for_datasets dumps srv
           (horreum_datasets srv (horreum_test_id args) (horreum_count args)
              (horreum_page args) (horreum_limit args)) []
           \<lparr>db_conn = conn, http_log = [], insert_log = [], peak = 0\<rparr> = (Inl e, st)"
  shows "upload_with dumps srv args conn = \<lparr>outcome = Some e, opened = 1, final = Some st\<rparr>"
  using assms by (simp add: upload_with_def Let_def)

lemma upload_with_done:
  assumes "for_datasets dumps srv
           (horreum_datasets srv (horreum_test_id args) (horreum_count args)
              (horreum_page args) (horreum_limit args)) []
           \<lparr>db_conn = conn, http_log = [], insert_log = [], peak = 0\<rparr> = (Inr buf, st)"
  shows "upload_with dumps srv args conn =
     (if length buf > 0
      then (case db_insert dumps (db_conn st) buf of
              (Inl e, c) \<Rightarrow>
                \<lparr>outcome = Some e, opened = 1,
                 final = Some (st\<lparr>db_conn := c, insert_log := insert_log st @ [buf]\<rparr>)\<rparr>
            | (Inr u, c) \<Rightarrow>
                \<lparr>outcome = None, opened = 1,
                 final = Some (st\<lparr>db_conn := close c,
                   insert_log := insert_log st @ [buf]\<rparr>)\<rparr>)
      else \<lparr>outcome = None, opened = 1, final = Some (st\<lparr>db_conn := close (db_conn st)\<rparr>)\<rparr>)"
  using assms by (simp add: upload_with_def Let_def)

text \<open>
  The part of \<^verbatim>\<open>upload\<close> after the table is looked after never closes a connection
  when an exception ends it, and closes it once when it returns.
\<close>

lemma upload_with_closes:
  "opened (upload_with dumps srv args conn) = 1 \<and>
   (\<exists>st. final (upload_with dumps srv args conn) = Some st \<and>
      closes (db_conn st) =
        (if outcome (upload_with dumps srv args conn) = None then closes conn + 1
         else closes conn))"
proof -
  define st0 where "st0 = \<lparr>db_conn = conn, http_log = [], insert_log = [], peak = 0\<rparr>"
  define evs where "evs = horreum_datasets srv (horreum_test_id args) (horreum_count args)
      (horreum_page args) (horreum_limit args)"
  obtain res st where f: "for_datasets dumps srv evs [] st0 = (res, st)"
    by (cases "for_datasets dumps srv evs [] st0") auto
  from for_datasets_effect [OF f] have "closes (db_conn st) = closes (db_conn st0)" by simp
  then have c0: "closes (db_conn st) = closes conn" by (simp add: st0_def)
  show ?thesis
  proof (cases res)
    case (Inl e)
    with f have "upload_with dumps srv args conn =
        \<lparr>outcome = Some e, opened = 1, final = Some st\<rparr>"
      unfolding st0_def evs_def by (intro upload_with_raised) simp_all
    with c0 show ?thesis by simp
  next
    case (Inr buf)
    with f have u: "upload_with dumps srv args conn =
     (if length buf > 0
      then (case db_insert dumps (db_conn st) buf of
              (Inl e, c) \<Rightarrow>
                \<lparr>outcome = Some e, opened = 1,
                 final = Some (st\<lparr>db_conn := c, insert_log := insert_log st @ [buf]\<rparr>)\<rparr>
            | (Inr u, c) \<Rightarrow>
                \<lparr>outcome = None, opened = 1,
                 final = Some (st\<lparr>db_conn := close c,
                   insert_log := insert_log st @ [buf]\<rparr>)\<rparr>)
      else \<lparr>outcome = None, opened = 1, final = Some (st\<lparr>db_conn := close (db_conn st)\<rparr>)\<rparr>)"
      unfolding st0_def evs_def by (intro upload_with_done) simp_all
    obtain r c where d: "db_insert dumps (db_conn st) buf = (r, c)"
      by (cases "db_insert dumps (db_conn st) buf") auto
    from db_insert_closes [OF d] c0 have "closes c = closes conn" by simp
    with u d c0 show ?thesis by (cases r) (auto simp: close_def)
  qed
qed

text \<open>
  Claim C4, as amended. \<^verbatim>\<open>upload\<close> opens at most one connection. A run that returns has
  opened one connection and closed it exactly once. A run that an exception ends after
  the connection was opened has not closed it: \<^verbatim>\<open>db_conn.close()\<close> is the last statement
  of \<^verbatim>\<open>upload\<close> and nothing catches the exception. A run that could not connect has
  opened nothing.
\<close>

theorem connection_closed_only_when_done:
  "opened (upload dumps srv pg args) \<le> 1 \<and>
   (outcome (upload dumps srv pg args) = None \<longrightarrow>
      opened (upload dumps srv pg args) = 1 \<and>
      (\<exists>st. final (upload dumps srv pg args) = Some st \<and> closes (db_conn st) = 1)) \<and>
   (\<forall>e st. outcome (upload dumps srv pg args) = Some e \<and>
        final (upload dumps srv pg args) = Some st \<longrightarrow>
      opened (upload dumps srv pg args) = 1 \<and> closes (db_conn st) = 0) \<and>
   (final (upload dumps srv pg args) = None \<longrightarrow>
      opened (upload dumps srv pg args) = 0 \<and>
      outcome (upload dumps srv pg args) = Some OperationalError)"
proof (cases "reachable pg")
  case False
  then show ?thesis by (simp add: upload_unreachable)
next
  case True
  define c0 where "c0 = snd (db_table_init (new_connection pg))"
  have u: "upload dumps srv pg args = upload_with dumps srv args c0"
    unfolding c0_def using True by (rule upload_reachable)
  have "closes c0 = 0" unfolding c0_def by (rule db_table_init_conn(1))
  with upload_with_closes [of dumps srv args c0] show ?thesis
    unfolding u by (auto split: if_splits)
qed

text \<open>
  The calls of \<^verbatim>\<open>_db_insert\<close> in a run that got as far as opening the connection.
\<close>

lemma all_tens: "\<forall>b\<in>set new. length b = 10 \<Longrightarrow> map length new = replicate (length new) 10"
  by (induction new) simp_all

lemma upload_batches:
  assumes fin: "final (upload dumps srv pg args) = Some st"
  defines "n \<equiv> length (yielded_of (horreum_datasets srv (horreum_test_id args)
      (horreum_count args) (horreum_page args) (horreum_limit args)))"
  shows "peak st \<le> 10 \<and>
         (\<exists>mid fin. insert_log st = mid @ fin \<and> (\<forall>b\<in>set mid. length b = 10) \<and>
            (fin = [] \<or> (\<exists>b. fin = [b] \<and> 1 \<le> length b \<and> length b \<le> 9)) \<and>
            (outcome (upload dumps srv pg args) = None \<longrightarrow>
               length mid = n div 10 \<and> map length fin = (if n mod 10 = 0 then [] else [n mod 10])))"
proof (cases "reachable pg")
  case False
  with fin show ?thesis by (simp add: upload_unreachable)
next
  case True
  define c0 where "c0 = snd (db_table_init (new_connection pg))"
  have up: "upload dumps srv pg args = upload_with dumps srv args c0"
    unfolding c0_def using True by (rule upload_reachable)
  define st0 where "st0 = \<lparr>db_conn = c0, http_log = [], insert_log = [], peak = 0\<rparr>"
  define evs where "evs = horreum_datasets srv (horreum_test_id args) (horreum_count args)
      (horreum_page args) (horreum_limit args)"
  have n: "n = length (yielded_of evs)" by (simp add: n_def evs_def)
  let ?P = "\<lambda>mid fin. insert_log st = mid @ fin \<and> (\<forall>b\<in>set mid. length b = 10) \<and>
      (fin = [] \<or> (\<exists>b. fin = [b] \<and> 1 \<le> length b \<and> length b \<le> 9)) \<and>
      (outcome (upload dumps srv pg args) = None \<longrightarrow>
         length mid = n div 10 \<and> map length fin = (if n mod 10 = 0 then [] else [n mod 10]))"
  obtain res st1 where f: "for_datasets dumps srv evs [] st0 = (res, st1)"
    by (cases "for_datasets dumps srv evs [] st0") auto
  from for_datasets_effect [OF f] obtain new where
    p: "peak st1 \<le> 10" and l: "insert_log st1 = new" and t: "\<forall>b\<in>set new. length b = 10"
    and s: "\<forall>buf'. res = Inr buf' \<longrightarrow> length buf' < 10 \<and> length new = n div 10 \<and>
        length buf' = n mod 10"
    by (auto simp: st0_def n)
  show ?thesis
  proof (cases res)
    case (Inl e)
    with f have "upload dumps srv pg args = \<lparr>outcome = Some e, opened = 1, final = Some st1\<rparr>"
      unfolding up st0_def evs_def by (intro upload_with_raised) simp_all
    with fin have e: "st = st1" "outcome (upload dumps srv pg args) = Some e" by simp_all
    with l t have inst: "?P new []" by simp
    have "\<exists>mid fin. ?P mid fin"
    proof (intro exI)
      show "?P new []" by (rule inst)
    qed
    with p e show ?thesis by simp
  next
    case (Inr buf)
    with s have b: "length buf < 10" "length new = n div 10" "length buf = n mod 10"
      by simp_all
    from Inr f have u: "upload dumps srv pg args =
     (if length buf > 0
      then (case db_insert dumps (db_conn st1) buf of
              (Inl e, c) \<Rightarrow>
                \<lparr>outcome = Some e, opened = 1,
                 final = Some (st1\<lparr>db_conn := c, insert_log := insert_log st1 @ [buf]\<rparr>)\<rparr>
            | (Inr u, c) \<Rightarrow>
                \<lparr>outcome = None, opened = 1,
                 final = Some (st1\<lparr>db_conn := close c,
                   insert_log := insert_log st1 @ [buf]\<rparr>)\<rparr>)
      else \<lparr>outcome = None, opened = 1,
            final = Some (st1\<lparr>db_conn := close (db_conn st1)\<rparr>)\<rparr>)"
      unfolding up st0_def evs_def by (intro upload_with_done) simp_all
    show ?thesis
    proof (cases "length buf > 0")
      case False
      with u fin have e: "st = st1\<lparr>db_conn := close (db_conn st1)\<rparr>" by simp
      with l t b False have inst: "?P new []" by simp
      have "\<exists>mid fin. ?P mid fin"
      proof (intro exI)
        show "?P new []" by (rule inst)
      qed
      with p e show ?thesis by simp
    next
      case pos: True
      obtain r c where d: "db_insert dumps (db_conn st1) buf = (r, c)"
        by (cases "db_insert dumps (db_conn st1) buf") auto
      from u fin pos d have "peak st = peak st1 \<and> insert_log st = new @ [buf]"
        by (cases r) (auto simp: l)
      then have e: "peak st = peak st1" "insert_log st = new @ [buf]" by simp_all
      with t b pos have inst: "?P new [buf]" by simp
      have "\<exists>mid fin. ?P mid fin"
      proof (intro exI)
        show "?P new [buf]" by (rule inst)
      qed
      with p e show ?thesis by simp
    qed
  qed
qed

text \<open>
  Claim C9. In every run that opened the connection, \<^verbatim>\<open>data_to_insert\<close> never has more
  than 10 elements, and every call of \<^verbatim>\<open>_db_insert\<close> gets a list that is not empty:
  the calls from inside the loop get exactly 10 rows each, and they are followed by
  at most one more call, the one after the loop, with 1 to 9 rows.
\<close>

theorem batches_are_bounded:
  assumes "final (upload dumps srv pg args) = Some st"
  shows "peak st \<le> 10 \<and>
         (\<forall>b\<in>set (insert_log st). 1 \<le> length b \<and> length b \<le> 10) \<and>
         (\<exists>mid fin. insert_log st = mid @ fin \<and> (\<forall>b\<in>set mid. length b = 10) \<and>
            (fin = [] \<or> (\<exists>b. fin = [b] \<and> 1 \<le> length b \<and> length b \<le> 9)))"
proof -
  from upload_batches [OF assms] obtain mid fin where
    p: "peak st \<le> 10" and l: "insert_log st = mid @ fin" and m: "\<forall>b\<in>set mid. length b = 10"
    and f: "fin = [] \<or> (\<exists>b. fin = [b] \<and> 1 \<le> length b \<and> length b \<le> 9)"
    by blast
  from l m f have "\<forall>b\<in>set (insert_log st). 1 \<le> length b \<and> length b \<le> 10" by auto
  moreover from l m f have "\<exists>mid fin. insert_log st = mid @ fin \<and>
      (\<forall>b\<in>set mid. length b = 10) \<and>
      (fin = [] \<or> (\<exists>b. fin = [b] \<and> 1 \<le> length b \<and> length b \<le> 9))"
    by blast
  ultimately show ?thesis using p by (intro conjI)
qed

text \<open>
  Claim C5. In a run that returns, the calls of \<^verbatim>\<open>_db_insert\<close> are one call of 10 rows
  for every full ten of the datasets handed out, in order, followed by one call with
  the remaining rows when there are any. For 23 datasets: 10, 10, 3. When the number
  of datasets is a multiple of 10 there is no call after the loop.
\<close>

theorem flushes_in_batches_of_ten:
  assumes "final (upload dumps srv pg args) = Some st"
    and "outcome (upload dumps srv pg args) = None"
    and "length (yielded_of (horreum_datasets srv (horreum_test_id args)
      (horreum_count args) (horreum_page args) (horreum_limit args))) = n"
  shows "map length (insert_log st) =
           replicate (n div 10) 10 @ (if n mod 10 = 0 then [] else [n mod 10]) \<and>
         (n = 23 \<longrightarrow> map length (insert_log st) = [10, 10, 3]) \<and>
         (n mod 10 = 0 \<longrightarrow> length (insert_log st) = n div 10 \<and>
            (\<forall>b\<in>set (insert_log st). length b = 10))"
proof -
  from upload_batches [OF assms(1)] assms(2,3) obtain mid fin where
    l: "insert_log st = mid @ fin" and m: "\<forall>b\<in>set mid. length b = 10"
    and k: "length mid = n div 10"
    and f: "map length fin = (if n mod 10 = 0 then [] else [n mod 10])"
    by auto
  from all_tens [OF m] k have "map length mid = replicate (n div 10) 10" by simp
  with l f have g: "map length (insert_log st) =
      replicate (n div 10) 10 @ (if n mod 10 = 0 then [] else [n mod 10])"
    by simp
  have "n = 23 \<longrightarrow> replicate (n div 10) 10 @ (if n mod 10 = 0 then [] else [n mod 10]) =
      [10, 10, 3 :: nat]"
    by (simp add: numeral_2_eq_2)
  moreover have "n mod 10 = 0 \<longrightarrow> length (insert_log st) = n div 10 \<and>
      (\<forall>b\<in>set (insert_log st). length b = 10)"
    using l m k f by auto
  ultimately show ?thesis using g by simp
qed

text \<open>
  A run returns when the server is reachable and has the table, the generator raises
  nothing, every dataset it hands out gives a dictionary whose values the statement
  takes, and the sequence has a value for each of them.
\<close>

lemma append_and_flush_returns:
  assumes "ready (db_conn st)" and "jsonb_in (db_conn st) = accepts"
    and "\<forall>v\<in>set buf. valid_record accepts dumps v" and "valid_record accepts dumps r"
    and "id_seq (db_conn st) + int (length buf) + 1 \<le> 2 ^ 31"
  shows "\<exists>buf' st'. append_and_flush dumps r buf st = (Inr buf', st') \<and>
           (\<forall>v\<in>set buf'. valid_record accepts dumps v) \<and> ready (db_conn st') \<and>
           jsonb_in (db_conn st') = accepts \<and>
           id_seq (db_conn st') + int (length buf') = id_seq (db_conn st) + int (length buf) + 1"
proof (cases "length (buf @ [r]) \<ge> 10")
  case True
  from assms(2,3,4) have v: "\<forall>v\<in>set (buf @ [r]). valid_record (jsonb_in (db_conn st)) dumps v"
    by simp
  from assms(5) have "id_seq (db_conn st) + int (length (buf @ [r])) \<le> 2 ^ 31" by simp
  from db_insert_returns [OF assms(1) v this] obtain conn' where
    "db_insert dumps (db_conn st) (buf @ [r]) = (Inr (), conn')" "ready conn'"
    "jsonb_in conn' = jsonb_in (db_conn st)"
    "id_seq conn' = id_seq (db_conn st) + int (length (buf @ [r]))"
    by blast
  with True assms(2) show ?thesis by (simp add: append_and_flush_def Let_def)
next
  case False
  with assms show ?thesis by (simp add: append_and_flush_def Let_def)
qed

lemma for_datasets_returns:
  "raised_of evs = [] \<Longrightarrow>
   \<forall>ds\<in>set (yielded_of evs). \<exists>r. collect srv ds = Inr r \<and> valid_record accepts dumps r \<Longrightarrow>
   \<forall>v\<in>set buf. valid_record accepts dumps v \<Longrightarrow>
   ready (db_conn st) \<Longrightarrow> jsonb_in (db_conn st) = accepts \<Longrightarrow>
   id_seq (db_conn st) + int (length buf) + int (length (yielded_of evs)) \<le> 2 ^ 31 \<Longrightarrow>
     \<exists>buf' st'. for_datasets dumps srv evs buf st = (Inr buf', st') \<and>
        (\<forall>v\<in>set buf'. valid_record accepts dumps v) \<and> ready (db_conn st') \<and>
        jsonb_in (db_conn st') = accepts \<and>
        id_seq (db_conn st') + int (length buf') =
          id_seq (db_conn st) + int (length buf) + int (length (yielded_of evs))"
proof (induction evs arbitrary: buf st)
  case Nil
  then show ?case by simp
next
  case (Cons ev evs)
  show ?case
  proof (cases ev)
    case (Requested page limit)
    with Cons.prems
      Cons.IH [of buf "st\<lparr>http_log := http_log st @ [Get_dataset_list page limit]\<rparr>"]
    show ?thesis by simp
  next
    case (Raised e)
    with Cons.prems(1) show ?thesis by simp
  next
    case (Yielded ds)
    with Cons.prems(2) obtain r where r: "collect srv ds = Inr r" "valid_record accepts dumps r"
      by auto
    from Cons.prems(6) Yielded
    have room: "id_seq (db_conn st) + int (length buf) + 1 + int (length (yielded_of evs)) \<le> 2 ^ 31"
      by simp
    then have "id_seq (db_conn (st\<lparr>http_log := http_log st @ [Get_labelValues (ds_id ds)]\<rparr>)) +
        int (length buf) + 1 \<le> 2 ^ 31"
      by simp
    from append_and_flush_returns
      [of "st\<lparr>http_log := http_log st @ [Get_labelValues (ds_id ds)]\<rparr>" accepts buf dumps r,
       OF _ _ Cons.prems(3) r(2) this]
      Cons.prems(4,5)
    obtain buf1 st1 where a: "append_and_flush dumps r buf
        (st\<lparr>http_log := http_log st @ [Get_labelValues (ds_id ds)]\<rparr>) = (Inr buf1, st1)"
      and f1: "\<forall>v\<in>set buf1. valid_record accepts dumps v" and t1: "ready (db_conn st1)"
      and j1: "jsonb_in (db_conn st1) = accepts"
      and q1: "id_seq (db_conn st1) + int (length buf1) = id_seq (db_conn st) + int (length buf) + 1"
      by auto
    from a r(1) have b: "loop_body dumps srv ds buf st = (Inr buf1, st1)"
      by (simp add: loop_body_def Let_def)
    from Cons.prems(1,2) Yielded have "raised_of evs = []"
      and "\<forall>ds\<in>set (yielded_of evs). \<exists>r. collect srv ds = Inr r \<and> valid_record accepts dumps r"
      by simp_all
    moreover from q1 room
    have "id_seq (db_conn st1) + int (length buf1) + int (length (yielded_of evs)) \<le> 2 ^ 31"
      by simp
    ultimately obtain buf' st' where
      r: "for_datasets dumps srv evs buf1 st1 = (Inr buf', st')"
      and v: "\<forall>v\<in>set buf'. valid_record accepts dumps v" and t: "ready (db_conn st')"
      and j: "jsonb_in (db_conn st') = accepts"
      and q: "id_seq (db_conn st') + int (length buf') =
          id_seq (db_conn st1) + int (length buf1) + int (length (yielded_of evs))"
      using Cons.IH [of buf1 st1] f1 t1 j1 by blast
    from q q1 Yielded have "id_seq (db_conn st') + int (length buf') =
        id_seq (db_conn st) + int (length buf) + int (length (yielded_of (ev # evs)))"
      by simp
    moreover from r b Yielded
    have "for_datasets dumps srv (ev # evs) buf st = (Inr buf', st')" by simp
    ultimately show ?thesis using v t j by blast
  qed
qed

lemma upload_returns:
  assumes re: "reachable pg" and tb: "data_table pg = Some rows"
    and ids: "list_all (\<lambda>r. fst r < data_id_seq pg) rows"
    and ra: "raised_of (horreum_datasets srv (horreum_test_id args) (horreum_count args)
           (horreum_page args) (horreum_limit args)) = []"
    and co: "\<forall>ds\<in>set (yielded_of (horreum_datasets srv (horreum_test_id args)
           (horreum_count args) (horreum_page args) (horreum_limit args))).
           \<exists>r. collect srv ds = Inr r \<and> valid_record (jsonb_accepts pg) dumps r"
    and room: "data_id_seq pg + int (length (yielded_of (horreum_datasets srv
           (horreum_test_id args) (horreum_count args) (horreum_page args)
           (horreum_limit args)))) \<le> 2 ^ 31"
  shows "outcome (upload dumps srv pg args) = None \<and>
         (\<exists>st. final (upload dumps srv pg args) = Some st \<and>
            id_seq (db_conn st) = data_id_seq pg + int (length (yielded_of (horreum_datasets srv
              (horreum_test_id args) (horreum_count args) (horreum_page args)
              (horreum_limit args)))))"
proof -
  define c0 where "c0 = snd (db_table_init (new_connection pg))"
  have up: "upload dumps srv pg args = upload_with dumps srv args c0"
    unfolding c0_def using re by (rule upload_reachable)
  from tb have c: "c0 = new_connection pg"
    unfolding c0_def by (intro db_table_init_exists) simp
  define st0 where "st0 = \<lparr>db_conn = c0, http_log = [], insert_log = [], peak = 0\<rparr>"
  have r0: "ready (db_conn st0)" and j0: "jsonb_in (db_conn st0) = jsonb_accepts pg"
    and q0: "id_seq (db_conn st0) = data_id_seq pg"
    using tb ids by (simp_all add: st0_def c new_connection_def ready_def)
  from room q0 have "id_seq (db_conn st0) + int (length ([] :: mirror_record list)) +
      int (length (yielded_of (horreum_datasets srv (horreum_test_id args)
        (horreum_count args) (horreum_page args) (horreum_limit args)))) \<le> 2 ^ 31"
    by simp
  from for_datasets_returns [OF ra co _ r0 j0 this] obtain buf st where
    f: "for_datasets dumps srv (horreum_datasets srv (horreum_test_id args) (horreum_count args)
           (horreum_page args) (horreum_limit args)) [] st0 = (Inr buf, st)"
    and fb: "\<forall>v\<in>set buf. valid_record (jsonb_accepts pg) dumps v" and t: "ready (db_conn st)"
    and j: "jsonb_in (db_conn st) = jsonb_accepts pg"
    and q: "id_seq (db_conn st) + int (length buf) =
        data_id_seq pg + int (length (yielded_of (horreum_datasets srv (horreum_test_id args)
          (horreum_count args) (horreum_page args) (horreum_limit args))))"
    using q0 by auto
  from fb j have v: "\<forall>v\<in>set buf. valid_record (jsonb_in (db_conn st)) dumps v" by simp
  from q room have "id_seq (db_conn st) + int (length buf) \<le> 2 ^ 31" by simp
  from db_insert_returns [OF t v this] obtain c' where
    d: "db_insert dumps (db_conn st) buf = (Inr (), c')"
    and q': "id_seq c' = id_seq (db_conn st) + int (length buf)"
    by blast
  show ?thesis
  proof (cases "length buf > 0")
    case True
    with upload_with_done [OF f [unfolded st0_def]] d q q' show ?thesis
      unfolding up by (simp add: close_def)
  next
    case False
    with upload_with_done [OF f [unfolded st0_def]] q show ?thesis
      unfolding up by (simp add: close_def)
  qed
qed

text \<open>
  The example server gives a dictionary with values that are taken for each of its
  datasets, so its runs return.
\<close>

lemma collect_example:
  assumes "0 \<le> i" and "i \<le> 1000"
  shows "\<exists>r. collect (paged_source items) (example_dataset i) = Inr r \<and>
           valid_record example_jsonb_in example_dumps r"
proof -
  have "0 \<le> ds_start (example_dataset i)" "ds_start (example_dataset i) < 2 ^ 32 * 1000"
    using assms by (simp_all add: example_dataset_def)
  then have "when_of (example_dataset i) =
      utc_datetime (ds_start (example_dataset i) div 1000)
        (ds_start (example_dataset i) mod 1000 * 1000)"
    and "0 \<le> ds_start (example_dataset i) div 1000"
    and "ds_start (example_dataset i) div 1000 < 2 ^ 32"
    by (simp_all add: when_of_in_range)
  with utc_datetime_returns [of "ds_start (example_dataset i) div 1000"
      "ds_start (example_dataset i) mod 1000 * 1000"]
  obtain w where w: "when_of (example_dataset i) = Inr w" by auto
  have "horreum_labelvalues (paged_source items) (ds_id (example_dataset i)) = Inr []"
    by (simp add: horreum_labelvalues_def paged_source_def get_json_def)
  with w have "collect (paged_source items) (example_dataset i) =
      Inr \<lparr>horreum_testid = 1, horreum_runid = 100 + i, horreum_datasetid = i,
           start = w, label_values = []\<rparr>"
    by (simp add: collect_def example_dataset_def)
  moreover have "valid_record example_jsonb_in example_dumps
      \<lparr>horreum_testid = 1, horreum_runid = 100 + i, horreum_datasetid = i,
       start = w, label_values = []\<rparr>"
    using assms by (simp add: valid_record_def example_texts fits_row_def fits_integer_def)
  ultimately show ?thesis by simp
qed

lemma example_23_run:
  "outcome (upload example_dumps (paged_source (example_items 23)) empty_database
     (example_args 100)) = None \<and>
   (\<exists>st. final (upload example_dumps (paged_source (example_items 23)) empty_database
      (example_args 100)) = Some st \<and> id_seq (db_conn st) = 24) \<and>
   length (yielded_of (horreum_datasets (paged_source (example_items 23)) 1 100 1 10)) = 23"
proof -
  have y: "yielded_of (horreum_datasets (paged_source (example_items 23)) 1 100 1 10) =
      example_items 23"
    by code_simp
  have r: "raised_of (horreum_datasets (paged_source (example_items 23)) 1 100 1 10) = []"
    by code_simp
  have c: "\<forall>ds\<in>set (example_items 23).
      \<exists>r. collect (paged_source (example_items 23)) ds = Inr r \<and>
        valid_record example_jsonb_in example_dumps r"
    by (auto simp: example_items_def intro!: collect_example)
  have l: "length (example_items 23) = 23" by (simp add: example_items_def)
  from upload_returns [of empty_database "[]" "paged_source (example_items 23)"
      "example_args 100" example_dumps]
    y r c l
  show ?thesis by (simp add: empty_database_def example_args_def)
qed

text \<open>
  The theorem of claim C5 on a server with 23 datasets in pages of 10: the run returns,
  and the three calls have 10, 10 and 3 rows.
\<close>

theorem flushes_in_batches_of_ten_witness:
  "outcome (upload example_dumps (paged_source (example_items 23)) empty_database
     (example_args 100)) = None \<and>
   length (yielded_of (horreum_datasets (paged_source (example_items 23)) 1 100 1 10)) = 23 \<and>
   map length (insert_log (the (final
     (upload example_dumps (paged_source (example_items 23)) empty_database
        (example_args 100))))) =
     [10, 10, 3]"
proof -
  from example_23_run obtain st where
    o: "outcome (upload example_dumps (paged_source (example_items 23)) empty_database
        (example_args 100)) = None"
    and f: "final (upload example_dumps (paged_source (example_items 23)) empty_database
        (example_args 100)) = Some st"
    and n: "length (yielded_of (horreum_datasets (paged_source (example_items 23)) 1 100 1 10)) =
        23"
    by blast
  from n have "length (yielded_of (horreum_datasets (paged_source (example_items 23))
      (horreum_test_id (example_args 100)) (horreum_count (example_args 100))
      (horreum_page (example_args 100)) (horreum_limit (example_args 100)))) = 23"
    by (simp add: example_args_def)
  from flushes_in_batches_of_ten [OF f o this]
  have "map length (insert_log st) = [10, 10, 3]" by blast
  with o f n show ?thesis by simp
qed

text \<open>
  The theorem of claim C9 on the same run.
\<close>

theorem batches_are_bounded_witness:
  "(\<exists>st. final (upload example_dumps (paged_source (example_items 23)) empty_database
      (example_args 100)) = Some st) \<and>
   peak (the (final
     (upload example_dumps (paged_source (example_items 23)) empty_database
        (example_args 100)))) \<le> 10"
proof -
  from example_23_run obtain st where
    f: "final (upload example_dumps (paged_source (example_items 23)) empty_database
        (example_args 100)) = Some st"
    by blast
  from batches_are_bounded [OF f] have "peak st \<le> 10" by simp
  with f show ?thesis by simp
qed

lemma empty_source_run:
  "outcome (upload example_dumps (paged_source []) empty_database (example_args 100)) = None"
  by code_simp

lemma failing_source_run:
  "outcome (upload example_dumps failing_source empty_database (example_args 100)) =
     Some (HTTPError 503)"
  by code_simp

text \<open>
  The theorem of claim C4 on a run that returns (a server with no datasets) and on a
  run that the status 503 of the first page request ends.
\<close>

theorem connection_closed_only_when_done_witness:
  "outcome (upload example_dumps (paged_source []) empty_database (example_args 100)) = None \<and>
   opened (upload example_dumps (paged_source []) empty_database (example_args 100)) = 1 \<and>
   map_option (\<lambda>st. closes (db_conn st))
     (final (upload example_dumps (paged_source []) empty_database (example_args 100))) =
     Some 1 \<and>
   outcome (upload example_dumps failing_source empty_database (example_args 100)) =
     Some (HTTPError 503) \<and>
   opened (upload example_dumps failing_source empty_database (example_args 100)) = 1 \<and>
   map_option (\<lambda>st. closes (db_conn st))
     (final (upload example_dumps failing_source empty_database (example_args 100))) = Some 0"
proof -
  have f: "\<exists>st. final (upload example_dumps failing_source empty_database (example_args 100)) =
      Some st"
    using connection_closed_only_when_done
      [of example_dumps failing_source empty_database "example_args 100"] failing_source_run
    by (cases "final (upload example_dumps failing_source empty_database (example_args 100))")
      auto
  from connection_closed_only_when_done
    [of example_dumps "paged_source []" empty_database "example_args 100"] empty_source_run
  have a: "opened (upload example_dumps (paged_source []) empty_database (example_args 100)) =
        1 \<and>
      map_option (\<lambda>st. closes (db_conn st))
        (final (upload example_dumps (paged_source []) empty_database (example_args 100))) =
        Some 1"
    by auto
  from connection_closed_only_when_done
    [of example_dumps failing_source empty_database "example_args 100"] failing_source_run f
  have b: "opened (upload example_dumps failing_source empty_database (example_args 100)) = 1 \<and>
      map_option (\<lambda>st. closes (db_conn st))
        (final (upload example_dumps failing_source empty_database (example_args 100))) =
        Some 0"
    by auto
  from a b empty_source_run failing_source_run show ?thesis by simp
qed

text \<open>
  Claim C4 as stated fails: the run that the status 503 ends has opened a connection
  and closed it zero times.
\<close>

theorem connection_left_open_on_error:
  "outcome (upload example_dumps failing_source empty_database (example_args 100)) =
     Some (HTTPError 503) \<and>
   opened (upload example_dumps failing_source empty_database (example_args 100)) = 1 \<and>
   map_option (\<lambda>st. closes (db_conn st))
     (final (upload example_dumps failing_source empty_database (example_args 100))) = Some 0 \<and>
   map_option (\<lambda>st. closes (db_conn st))
     (final (upload example_dumps failing_source empty_database (example_args 100))) \<noteq> Some 1"
  by code_simp

section \<open>Two runs over the same data\<close>

text \<open>
  The first run: a loop that returned has raised nothing, and every dataset it was
  handed gave a dictionary that the table has absorbed or that is still in the buffer.
\<close>

lemma append_and_flush_grows:
  assumes a: "append_and_flush dumps r buf st = (Inr buf', st')"
    and s: "stored (db_conn st) = txn (db_conn st)"
    and j: "jsonb_in (db_conn st) = accepts"
  shows "stored (db_conn st') = txn (db_conn st') \<and> jsonb_in (db_conn st') = accepts \<and>
         elsewhere (db_conn st') = elsewhere (db_conn st) \<and>
         (txn (db_conn st') = None \<longrightarrow> txn (db_conn st) = None) \<and>
         stored_keys (txn (db_conn st)) \<subseteq> stored_keys (txn (db_conn st')) \<and>
         (\<forall>x\<in>set (buf @ [r]). absorbed accepts dumps (txn (db_conn st')) x \<or> x \<in> set buf')"
proof (cases "length (buf @ [r]) \<ge> 10")
  case True
  obtain res conn where d: "db_insert dumps (db_conn st) (buf @ [r]) = (res, conn)"
    by (cases "db_insert dumps (db_conn st) (buf @ [r])") auto
  with a True obtain u where u: "res = Inr u" and c: "db_conn st' = conn"
    by (cases res) (auto simp: append_and_flush_def Let_def)
  from db_insert_grows [OF d [unfolded u]] j show ?thesis unfolding c by simp
next
  case False
  with a have "buf' = buf @ [r]" "db_conn st' = db_conn st"
    by (auto simp: append_and_flush_def Let_def)
  with s j show ?thesis by simp
qed

lemma for_datasets_grows:
  "for_datasets dumps srv evs buf st = (Inr buf', st') \<Longrightarrow>
   stored (db_conn st) = txn (db_conn st) \<Longrightarrow> jsonb_in (db_conn st) = accepts \<Longrightarrow>
     raised_of evs = [] \<and>
     stored (db_conn st') = txn (db_conn st') \<and> jsonb_in (db_conn st') = accepts \<and>
     elsewhere (db_conn st') = elsewhere (db_conn st) \<and>
     (txn (db_conn st') = None \<longrightarrow> txn (db_conn st) = None) \<and>
     stored_keys (txn (db_conn st)) \<subseteq> stored_keys (txn (db_conn st')) \<and>
     (\<forall>x\<in>set buf. absorbed accepts dumps (txn (db_conn st')) x \<or> x \<in> set buf') \<and>
     (\<forall>ds\<in>set (yielded_of evs).
        \<exists>r. collect srv ds = Inr r \<and>
          (absorbed accepts dumps (txn (db_conn st')) r \<or> r \<in> set buf'))"
proof (induction evs arbitrary: buf st)
  case Nil
  then show ?case by auto
next
  case (Cons ev evs)
  show ?case
  proof (cases ev)
    case (Requested page limit)
    with Cons.prems have "for_datasets dumps srv evs buf
        (st\<lparr>http_log := http_log st @ [Get_dataset_list page limit]\<rparr>) = (Inr buf', st')"
      by simp
    from Cons.IH [OF this] Cons.prems(2,3) Requested show ?thesis by simp
  next
    case (Raised e)
    with Cons.prems(1) show ?thesis by simp
  next
    case (Yielded ds)
    obtain r1 st1 where b: "loop_body dumps srv ds buf st = (r1, st1)"
      by (cases "loop_body dumps srv ds buf st") auto
    with Cons.prems(1) Yielded obtain buf1 where r1: "r1 = Inr buf1"
      and f: "for_datasets dumps srv evs buf1 st1 = (Inr buf', st')"
      by (cases r1) auto
    from b r1 obtain r where c: "collect srv ds = Inr r"
      and a: "append_and_flush dumps r buf
          (st\<lparr>http_log := http_log st @ [Get_labelValues (ds_id ds)]\<rparr>) = (Inr buf1, st1)"
      by (cases "collect srv ds") (auto simp: loop_body_def Let_def)
    from append_and_flush_grows [OF a, of accepts] Cons.prems(2,3) have
      s1: "stored (db_conn st1) = txn (db_conn st1)" and j1: "jsonb_in (db_conn st1) = accepts"
      and e1: "elsewhere (db_conn st1) = elsewhere (db_conn st)"
      and n1: "txn (db_conn st1) = None \<longrightarrow> txn (db_conn st) = None"
      and k1: "stored_keys (txn (db_conn st)) \<subseteq> stored_keys (txn (db_conn st1))"
      and a1: "\<forall>x\<in>set (buf @ [r]). absorbed accepts dumps (txn (db_conn st1)) x \<or> x \<in> set buf1"
      by simp_all
    from Cons.IH [OF f s1 j1] have
      ra: "raised_of evs = []"
      and s2: "stored (db_conn st') = txn (db_conn st')"
      and j2: "jsonb_in (db_conn st') = accepts"
      and e2: "elsewhere (db_conn st') = elsewhere (db_conn st1)"
      and n2: "txn (db_conn st') = None \<longrightarrow> txn (db_conn st1) = None"
      and k2: "stored_keys (txn (db_conn st1)) \<subseteq> stored_keys (txn (db_conn st'))"
      and a2: "\<forall>x\<in>set buf1. absorbed accepts dumps (txn (db_conn st')) x \<or> x \<in> set buf'"
      and y2: "\<forall>ds\<in>set (yielded_of evs).
           \<exists>r. collect srv ds = Inr r \<and>
             (absorbed accepts dumps (txn (db_conn st')) r \<or> r \<in> set buf')"
      by blast+
    have step: "\<forall>x\<in>set (buf @ [r]).
        absorbed accepts dumps (txn (db_conn st')) x \<or> x \<in> set buf'"
    proof
      fix x assume "x \<in> set (buf @ [r])"
      with a1 have "absorbed accepts dumps (txn (db_conn st1)) x \<or> x \<in> set buf1" by blast
      then show "absorbed accepts dumps (txn (db_conn st')) x \<or> x \<in> set buf'"
        using absorbed_mono [OF _ k2] a2 by blast
    qed
    have "raised_of (ev # evs) = []" using ra Yielded by simp
    moreover have "elsewhere (db_conn st') = elsewhere (db_conn st)" using e1 e2 by simp
    moreover have "txn (db_conn st') = None \<longrightarrow> txn (db_conn st) = None" using n1 n2 by simp
    moreover have "stored_keys (txn (db_conn st)) \<subseteq> stored_keys (txn (db_conn st'))"
      using k1 k2 by blast
    moreover have "\<forall>x\<in>set buf. absorbed accepts dumps (txn (db_conn st')) x \<or> x \<in> set buf'"
      using step by simp
    moreover have "\<forall>ds\<in>set (yielded_of (ev # evs)).
        \<exists>r. collect srv ds = Inr r \<and>
          (absorbed accepts dumps (txn (db_conn st')) r \<or> r \<in> set buf')"
      using y2 c step Yielded by auto
    ultimately show ?thesis using s2 j2 by (intro conjI)
  qed
qed

text \<open>
  The second run: over a table that has absorbed every dictionary, the loop returns
  and the table stays as it is, while the sequence has a value for every dataset.
\<close>

lemma append_and_flush_absorbed:
  assumes "closes (db_conn st) = 0" and "\<not> aborted (db_conn st)"
    and "jsonb_in (db_conn st) = accepts"
    and "txn (db_conn st) = tbl" and "stored (db_conn st) = tbl"
    and "\<forall>x\<in>set buf. absorbed accepts dumps tbl x" and "absorbed accepts dumps tbl r"
    and "id_seq (db_conn st) + int (length buf) + 1 \<le> 2 ^ 31"
  shows "\<exists>buf' st'. append_and_flush dumps r buf st = (Inr buf', st') \<and>
           (buf' = [] \<or> buf' = buf @ [r]) \<and>
           closes (db_conn st') = 0 \<and> \<not> aborted (db_conn st') \<and>
           jsonb_in (db_conn st') = accepts \<and>
           txn (db_conn st') = tbl \<and> stored (db_conn st') = tbl \<and>
           id_seq (db_conn st') + int (length buf') = id_seq (db_conn st) + int (length buf) + 1"
proof (cases "length (buf @ [r]) \<ge> 10")
  case True
  from assms(3,4,6,7)
  have a: "\<forall>x\<in>set (buf @ [r]). absorbed (jsonb_in (db_conn st)) dumps (txn (db_conn st)) x"
    by simp
  from assms(8) have "id_seq (db_conn st) + int (length (buf @ [r])) \<le> 2 ^ 31" by simp
  from db_insert_absorbed [OF assms(1,2) a this] obtain conn' where
    "db_insert dumps (db_conn st) (buf @ [r]) = (Inr (), conn')" "closes conn' = 0"
    "\<not> aborted conn'" "txn conn' = txn (db_conn st)" "stored conn' = txn (db_conn st)"
    "jsonb_in conn' = jsonb_in (db_conn st)"
    "id_seq conn' = id_seq (db_conn st) + int (length (buf @ [r]))"
    by blast
  with True assms(3,4) show ?thesis by (simp add: append_and_flush_def Let_def)
next
  case False
  with assms(1-5) show ?thesis by (simp add: append_and_flush_def Let_def)
qed

lemma for_datasets_absorbed:
  "raised_of evs = [] \<Longrightarrow>
   \<forall>ds\<in>set (yielded_of evs). \<exists>r. collect srv ds = Inr r \<and> absorbed accepts dumps tbl r \<Longrightarrow>
   \<forall>x\<in>set buf. absorbed accepts dumps tbl x \<Longrightarrow>
   closes (db_conn st) = 0 \<and> \<not> aborted (db_conn st) \<and> jsonb_in (db_conn st) = accepts \<and>
   txn (db_conn st) = tbl \<and> stored (db_conn st) = tbl \<Longrightarrow>
   id_seq (db_conn st) + int (length buf) + int (length (yielded_of evs)) \<le> 2 ^ 31 \<Longrightarrow>
     \<exists>buf' st'. for_datasets dumps srv evs buf st = (Inr buf', st') \<and>
        (\<forall>x\<in>set buf'. absorbed accepts dumps tbl x) \<and>
        closes (db_conn st') = 0 \<and> \<not> aborted (db_conn st') \<and>
        jsonb_in (db_conn st') = accepts \<and>
        txn (db_conn st') = tbl \<and> stored (db_conn st') = tbl \<and>
        id_seq (db_conn st') + int (length buf') \<le> 2 ^ 31"
proof (induction evs arbitrary: buf st)
  case Nil
  then show ?case by simp
next
  case (Cons ev evs)
  show ?case
  proof (cases ev)
    case (Requested page limit)
    with Cons.prems
      Cons.IH [of buf "st\<lparr>http_log := http_log st @ [Get_dataset_list page limit]\<rparr>"]
    show ?thesis by simp
  next
    case (Raised e)
    with Cons.prems(1) show ?thesis by simp
  next
    case (Yielded ds)
    with Cons.prems(2) obtain r where r: "collect srv ds = Inr r" "absorbed accepts dumps tbl r"
      by auto
    from Cons.prems(5) Yielded
    have room: "id_seq (db_conn st) + int (length buf) + 1 + int (length (yielded_of evs)) \<le> 2 ^ 31"
      by simp
    then have q: "id_seq (db_conn (st\<lparr>http_log := http_log st @ [Get_labelValues (ds_id ds)]\<rparr>)) +
        int (length buf) + 1 \<le> 2 ^ 31"
      by simp
    from append_and_flush_absorbed
      [of "st\<lparr>http_log := http_log st @ [Get_labelValues (ds_id ds)]\<rparr>" accepts tbl buf dumps r,
       OF _ _ _ _ _ Cons.prems(3) r(2) q]
      Cons.prems(4)
    obtain buf1 st1 where a: "append_and_flush dumps r buf
        (st\<lparr>http_log := http_log st @ [Get_labelValues (ds_id ds)]\<rparr>) = (Inr buf1, st1)"
      and b1: "buf1 = [] \<or> buf1 = buf @ [r]"
      and i1: "closes (db_conn st1) = 0 \<and> \<not> aborted (db_conn st1) \<and>
        jsonb_in (db_conn st1) = accepts \<and> txn (db_conn st1) = tbl \<and> stored (db_conn st1) = tbl"
      and q1: "id_seq (db_conn st1) + int (length buf1) = id_seq (db_conn st) + int (length buf) + 1"
      by auto
    from b1 Cons.prems(3) r(2) have f1: "\<forall>x\<in>set buf1. absorbed accepts dumps tbl x" by auto
    from a r(1) have b: "loop_body dumps srv ds buf st = (Inr buf1, st1)"
      by (simp add: loop_body_def Let_def)
    from Cons.prems(1,2) Yielded have "raised_of evs = []"
      and "\<forall>ds\<in>set (yielded_of evs). \<exists>r. collect srv ds = Inr r \<and> absorbed accepts dumps tbl r"
      by simp_all
    moreover from q1 room
    have "id_seq (db_conn st1) + int (length buf1) + int (length (yielded_of evs)) \<le> 2 ^ 31"
      by simp
    ultimately show ?thesis
      using Cons.IH [of buf1 st1] f1 i1 b Yielded by simp
  qed
qed

text \<open>
  Two runs of \<^verbatim>\<open>upload\<close> with the same arguments against the same server: when the first
  returns, and the second starts from the table and the sequence the first has left,
  and the sequence has a value for every dataset, the second returns too and leaves
  the same table.
\<close>

lemma upload_twice:
  assumes o: "outcome (upload dumps srv pg args) = None"
    and f: "final (upload dumps srv pg args) = Some st1"
    and room: "id_seq (db_conn st1) + int (length (yielded_of (horreum_datasets srv
        (horreum_test_id args) (horreum_count args) (horreum_page args)
        (horreum_limit args)))) \<le> 2 ^ 31"
  shows "outcome (upload dumps srv
           (pg\<lparr>data_table := stored (db_conn st1), data_id_seq := id_seq (db_conn st1)\<rparr>)
           args) = None \<and>
         (\<exists>st2. final (upload dumps srv
              (pg\<lparr>data_table := stored (db_conn st1), data_id_seq := id_seq (db_conn st1)\<rparr>)
              args) = Some st2 \<and>
            stored (db_conn st2) = stored (db_conn st1))"
proof -
  have re: "reachable pg"
    using o by (cases "reachable pg") (simp_all add: upload_unreachable)
  define evs where "evs = horreum_datasets srv (horreum_test_id args) (horreum_count args)
      (horreum_page args) (horreum_limit args)"
  define accepts where "accepts = jsonb_accepts pg"
  define c0 where "c0 = snd (db_table_init (new_connection pg))"
  have up: "upload dumps srv pg args = upload_with dumps srv args c0"
    unfolding c0_def using re by (rule upload_reachable)
  define st0 where "st0 = \<lparr>db_conn = c0, http_log = [], insert_log = [], peak = 0\<rparr>"
  have s0: "stored (db_conn st0) = txn (db_conn st0)"
    and j0: "jsonb_in (db_conn st0) = accepts"
    and e0: "elsewhere (db_conn st0) = data_elsewhere pg"
    and n0: "txn (db_conn st0) = None \<longrightarrow> data_elsewhere pg"
    unfolding st0_def c0_def accepts_def upload_state.simps
    using db_table_init_conn(3,4,5) [of pg] db_table_init_missing [of pg] by blast+
  obtain res st where fd: "for_datasets dumps srv evs [] st0 = (res, st)"
    by (cases "for_datasets dumps srv evs [] st0") auto
  have "\<exists>buf. res = Inr buf"
  proof (cases res)
    case (Inl e)
    with fd have "upload dumps srv pg args = \<lparr>outcome = Some e, opened = 1, final = Some st\<rparr>"
      unfolding up st0_def evs_def by (intro upload_with_raised) simp_all
    with o show ?thesis by simp
  qed simp
  then obtain buf where res: "res = Inr buf" by blast
  from for_datasets_grows [OF fd [unfolded res] s0 j0] n0 e0 have
    ra: "raised_of evs = []"
    and s1: "stored (db_conn st) = txn (db_conn st)"
    and j1: "jsonb_in (db_conn st) = accepts"
    and e1: "elsewhere (db_conn st) = data_elsewhere pg"
    and n1: "txn (db_conn st) = None \<longrightarrow> data_elsewhere pg"
    and y1: "\<forall>ds\<in>set (yielded_of evs).
           \<exists>r. collect srv ds = Inr r \<and>
             (absorbed accepts dumps (txn (db_conn st)) r \<or> r \<in> set buf)"
    by simp_all
  from fd res have u: "upload dumps srv pg args =
     (if length buf > 0
      then (case db_insert dumps (db_conn st) buf of
              (Inl e, c) \<Rightarrow>
                \<lparr>outcome = Some e, opened = 1,
                 final = Some (st\<lparr>db_conn := c, insert_log := insert_log st @ [buf]\<rparr>)\<rparr>
            | (Inr u, c) \<Rightarrow>
                \<lparr>outcome = None, opened = 1,
                 final = Some (st\<lparr>db_conn := close c,
                   insert_log := insert_log st @ [buf]\<rparr>)\<rparr>)
      else \<lparr>outcome = None, opened = 1, final = Some (st\<lparr>db_conn := close (db_conn st)\<rparr>)\<rparr>)"
    unfolding up st0_def evs_def by (intro upload_with_done) simp_all
  define tbl where "tbl = stored (db_conn st1)"
  have fin: "(tbl = None \<longrightarrow> data_elsewhere pg) \<and>
      (\<forall>ds\<in>set (yielded_of evs). \<exists>r. collect srv ds = Inr r \<and> absorbed accepts dumps tbl r)"
  proof (cases "length buf > 0")
    case False
    with u f have "st1 = st\<lparr>db_conn := close (db_conn st)\<rparr>" by simp
    then have "tbl = txn (db_conn st)" by (simp add: tbl_def close_def s1)
    with False y1 n1 show ?thesis by simp
  next
    case True
    obtain r c where d: "db_insert dumps (db_conn st) buf = (r, c)"
      by (cases "db_insert dumps (db_conn st) buf") auto
    with u o True obtain v where r: "r = Inr v" by (cases r) auto
    from db_insert_grows [OF d [unfolded r]] j1 have
      s2: "stored c = txn c"
      and n2: "txn c = None \<longrightarrow> txn (db_conn st) = None"
      and k2: "stored_keys (txn (db_conn st)) \<subseteq> stored_keys (txn c)"
      and a2: "\<forall>x\<in>set buf. absorbed accepts dumps (txn c) x"
      by simp_all
    from u f True d r
    have "st1 = st\<lparr>db_conn := close c, insert_log := insert_log st @ [buf]\<rparr>" by simp
    then have t: "tbl = txn c" by (simp add: tbl_def close_def s2)
    have "\<forall>ds\<in>set (yielded_of evs). \<exists>r. collect srv ds = Inr r \<and> absorbed accepts dumps tbl r"
    proof
      fix ds assume "ds \<in> set (yielded_of evs)"
      with y1 obtain x where x: "collect srv ds = Inr x"
        "absorbed accepts dumps (txn (db_conn st)) x \<or> x \<in> set buf"
        by blast
      from x(2) have "absorbed accepts dumps (txn c) x"
        using absorbed_mono [OF _ k2] a2 by blast
      with x(1) t show "\<exists>r. collect srv ds = Inr r \<and> absorbed accepts dumps tbl r" by blast
    qed
    with t n1 n2 show ?thesis by simp
  qed
  define pg2 where
    "pg2 = pg\<lparr>data_table := stored (db_conn st1), data_id_seq := id_seq (db_conn st1)\<rparr>"
  have re2: "reachable pg2" using re by (simp add: pg2_def)
  have "tbl \<noteq> None \<or> data_elsewhere pg2" using fin by (auto simp: pg2_def)
  then have "data_table pg2 \<noteq> None \<or> data_elsewhere pg2" by (simp add: pg2_def tbl_def)
  then have c2: "snd (db_table_init (new_connection pg2)) = new_connection pg2"
    by (rule db_table_init_exists)
  have up2: "upload dumps srv pg2 args = upload_with dumps srv args (new_connection pg2)"
    using upload_reachable [OF re2, of dumps srv args] c2 by simp
  define st0' where
    "st0' = \<lparr>db_conn = new_connection pg2, http_log = [], insert_log = [], peak = 0\<rparr>"
  have i2: "closes (db_conn st0') = 0 \<and> \<not> aborted (db_conn st0') \<and>
      jsonb_in (db_conn st0') = accepts \<and> txn (db_conn st0') = tbl \<and> stored (db_conn st0') = tbl"
    by (simp add: st0'_def pg2_def new_connection_def accepts_def tbl_def)
  from room have q2: "id_seq (db_conn st0') + int (length ([] :: mirror_record list)) +
      int (length (yielded_of evs)) \<le> 2 ^ 31"
    by (simp add: st0'_def pg2_def new_connection_def evs_def)
  from fin have ya: "\<forall>ds\<in>set (yielded_of evs).
      \<exists>r. collect srv ds = Inr r \<and> absorbed accepts dumps tbl r"
    by blast
  from for_datasets_absorbed [OF ra ya _ i2 q2] obtain buf2 st2 where
    fd2: "for_datasets dumps srv evs [] st0' = (Inr buf2, st2)"
    and b2: "\<forall>x\<in>set buf2. absorbed accepts dumps tbl x"
    and o2: "closes (db_conn st2) = 0" "\<not> aborted (db_conn st2)"
    and j2: "jsonb_in (db_conn st2) = accepts"
    and t2: "txn (db_conn st2) = tbl" and s2: "stored (db_conn st2) = tbl"
    and r2: "id_seq (db_conn st2) + int (length buf2) \<le> 2 ^ 31"
    by auto
  from b2 j2 t2
  have "\<forall>x\<in>set buf2. absorbed (jsonb_in (db_conn st2)) dumps (txn (db_conn st2)) x" by simp
  from db_insert_absorbed [OF o2 this r2] t2 obtain c3 where
    d2: "db_insert dumps (db_conn st2) buf2 = (Inr (), c3)" and sc2: "stored c3 = tbl"
    by auto
  from upload_with_done [OF fd2 [unfolded st0'_def evs_def]] d2 sc2 s2
  have "outcome (upload dumps srv pg2 args) = None \<and>
      (\<exists>st2. final (upload dumps srv pg2 args) = Some st2 \<and> stored (db_conn st2) = tbl)"
    unfolding up2 by (simp add: close_def)
  then show ?thesis by (simp add: pg2_def tbl_def)
qed

text \<open>
  No run stores two rows under one natural key, whether it returns or raises.
\<close>

lemma db_insert_keeps_distinct:
  assumes c: "db_insert dumps conn data = (res, conn')"
    and s: "stored conn = txn conn" and d: "keys_distinct (txn conn)"
  shows "stored conn' = txn conn' \<and> keys_distinct (txn conn')"
proof (cases res)
  case (Inl e)
  from db_insert_raised [OF c [unfolded Inl]] s have "stored conn' = stored conn"
    and "stored conn' = txn conn'"
    by blast+
  with s d show ?thesis by metis
next
  case (Inr u)
  from db_insert_grows [OF c [unfolded Inr]] d
  have "stored conn' = txn conn'" and "keys_distinct (txn conn')" by blast+
  then show ?thesis by (intro conjI)
qed

lemma append_and_flush_keeps_distinct:
  assumes "append_and_flush dumps r buf st = (res, st')"
    and "stored (db_conn st) = txn (db_conn st)" and "keys_distinct (txn (db_conn st))"
  shows "stored (db_conn st') = txn (db_conn st') \<and> keys_distinct (txn (db_conn st'))"
proof (cases "length (buf @ [r]) \<ge> 10")
  case True
  obtain r1 conn where d: "db_insert dumps (db_conn st) (buf @ [r]) = (r1, conn)"
    by (cases "db_insert dumps (db_conn st) (buf @ [r])") auto
  with assms(1) True have "db_conn st' = conn"
    by (cases r1) (auto simp: append_and_flush_def Let_def)
  with db_insert_keeps_distinct [OF d assms(2,3)] show ?thesis by simp
next
  case False
  with assms show ?thesis by (auto simp: append_and_flush_def Let_def)
qed

lemma for_datasets_keeps_distinct:
  "for_datasets dumps srv evs buf st = (res, st') \<Longrightarrow>
   stored (db_conn st) = txn (db_conn st) \<Longrightarrow> keys_distinct (txn (db_conn st)) \<Longrightarrow>
     stored (db_conn st') = txn (db_conn st') \<and> keys_distinct (txn (db_conn st'))"
proof (induction evs arbitrary: buf st)
  case Nil
  then show ?case by auto
next
  case (Cons ev evs)
  show ?case
  proof (cases ev)
    case (Requested page limit)
    with Cons.prems have "for_datasets dumps srv evs buf
        (st\<lparr>http_log := http_log st @ [Get_dataset_list page limit]\<rparr>) = (res, st')"
      by simp
    from Cons.IH [OF this] Cons.prems(2,3) show ?thesis by simp
  next
    case (Raised e)
    with Cons.prems show ?thesis by auto
  next
    case (Yielded ds)
    obtain r1 st1 where b: "loop_body dumps srv ds buf st = (r1, st1)"
      by (cases "loop_body dumps srv ds buf st") auto
    have i1: "stored (db_conn st1) = txn (db_conn st1) \<and> keys_distinct (txn (db_conn st1))"
    proof (cases "collect srv ds")
      case (Inl e)
      with b Cons.prems(2,3) show ?thesis by (auto simp: loop_body_def Let_def)
    next
      case (Inr r)
      with b have "append_and_flush dumps r buf
          (st\<lparr>http_log := http_log st @ [Get_labelValues (ds_id ds)]\<rparr>) = (r1, st1)"
        by (simp add: loop_body_def Let_def)
      from append_and_flush_keeps_distinct [OF this] Cons.prems(2,3)
      show ?thesis by simp
    qed
    show ?thesis
    proof (cases r1)
      case (Inl e)
      with Cons.prems(1) Yielded b have "st' = st1" by simp
      with i1 show ?thesis by simp
    next
      case (Inr buf1)
      with Cons.prems(1) Yielded b have "for_datasets dumps srv evs buf1 st1 = (res, st')"
        by simp
      from Cons.IH [OF this] i1 show ?thesis by blast
    qed
  qed
qed

lemma upload_keeps_keys_distinct:
  assumes dt: "keys_distinct (data_table pg)"
    and f: "final (upload dumps srv pg args) = Some st"
  shows "keys_distinct (stored (db_conn st))"
proof -
  have re: "reachable pg"
    using f by (cases "reachable pg") (simp_all add: upload_unreachable)
  define evs where "evs = horreum_datasets srv (horreum_test_id args) (horreum_count args)
      (horreum_page args) (horreum_limit args)"
  define c0 where "c0 = snd (db_table_init (new_connection pg))"
  have up: "upload dumps srv pg args = upload_with dumps srv args c0"
    unfolding c0_def using re by (rule upload_reachable)
  define st0 where "st0 = \<lparr>db_conn = c0, http_log = [], insert_log = [], peak = 0\<rparr>"
  have t0: "stored (db_conn st0) = txn (db_conn st0)" "keys_distinct (txn (db_conn st0))"
    unfolding st0_def c0_def upload_state.simps
    using db_table_init_conn(3) [of pg] db_table_init_distinct [OF dt] by blast+
  obtain res st1 where fd: "for_datasets dumps srv evs [] st0 = (res, st1)"
    by (cases "for_datasets dumps srv evs [] st0") auto
  from for_datasets_keeps_distinct [OF fd t0]
  have i1: "stored (db_conn st1) = txn (db_conn st1)" "keys_distinct (txn (db_conn st1))"
    by simp_all
  show ?thesis
  proof (cases res)
    case (Inl e)
    with fd have "upload dumps srv pg args = \<lparr>outcome = Some e, opened = 1, final = Some st1\<rparr>"
      unfolding up st0_def evs_def by (intro upload_with_raised) simp_all
    with f have "st = st1" by simp
    with i1 show ?thesis by simp
  next
    case (Inr buf)
    with fd have u: "upload dumps srv pg args =
     (if length buf > 0
      then (case db_insert dumps (db_conn st1) buf of
              (Inl e, c) \<Rightarrow>
                \<lparr>outcome = Some e, opened = 1,
                 final = Some (st1\<lparr>db_conn := c, insert_log := insert_log st1 @ [buf]\<rparr>)\<rparr>
            | (Inr u, c) \<Rightarrow>
                \<lparr>outcome = None, opened = 1,
                 final = Some (st1\<lparr>db_conn := close c,
                   insert_log := insert_log st1 @ [buf]\<rparr>)\<rparr>)
      else \<lparr>outcome = None, opened = 1,
            final = Some (st1\<lparr>db_conn := close (db_conn st1)\<rparr>)\<rparr>)"
      unfolding up st0_def evs_def by (intro upload_with_done) simp_all
    show ?thesis
    proof (cases "length buf > 0")
      case False
      with u f have "st = st1\<lparr>db_conn := close (db_conn st1)\<rparr>" by simp
      with i1 show ?thesis by (simp add: close_def)
    next
      case True
      obtain r c where d: "db_insert dumps (db_conn st1) buf = (r, c)"
        by (cases "db_insert dumps (db_conn st1) buf") auto
      from db_insert_keeps_distinct [OF d i1]
      have i2: "stored c = txn c" "keys_distinct (txn c)" by simp_all
      from u f True d have "stored (db_conn st) = stored c"
        by (cases r) (auto simp: close_def)
      with i2 show ?thesis by simp
    qed
  qed
qed

text \<open>
  Claim C3 as stated fails. A dictionary with the natural key of a stored row makes
  \<^verbatim>\<open>_db_insert\<close> raise when the text of its label values is refused: the values of a row
  are checked before the conflict is looked for. And a batch that has returned, run
  once more on the connection it left, raises when the sequence of \<^verbatim>\<open>id\<close> has handed out
  its last value: a row that is skipped takes a value like any other.
\<close>

theorem overlapping_insert_can_raise:
  "natural_key (example_row_nul 1) \<in> set (map row_key [example_stored 1 1]) \<and>
   db_insert example_dumps (connection_with [example_stored 1 1] 2) [example_row_nul 1] =
     (Inl DataError, (connection_with [example_stored 1 1] 2)\<lparr>aborted := True\<rparr>) \<and>
   db_insert example_dumps (connection_with [] 2147483647) [example_row 1] =
     (Inr (), (connection_with [example_stored 2147483647 1] 2147483648)\<lparr>commits := 1\<rparr>) \<and>
   db_insert example_dumps
     ((connection_with [example_stored 2147483647 1] 2147483648)\<lparr>commits := 1\<rparr>)
     [example_row 1] =
     (Inl SequenceGeneratorLimitExceeded,
      (connection_with [example_stored 2147483647 1] 2147483648)
        \<lparr>commits := 1, aborted := True\<rparr>)"
  by (simp add: db_insert_cases insert_do_nothing_Some connection_with_def example_stored_def
      example_row_nul_def example_row_def example_texts fits_row_def fits_integer_def
      natural_key_def)

text \<open>
  Claim C3, as amended. No call of \<^verbatim>\<open>_db_insert\<close> leaves a second row under a natural
  key, whether it returns or raises: the rows stored under a key before the call are
  the rows stored under it afterwards, keys that were pairwise different stay so, and
  a batch whose keys are all stored adds nothing. The overlap is not an error: on a
  connection that is open, with no failed transaction, to a table that exists and
  whose values of \<^verbatim>\<open>id\<close> are below the next value of the sequence, a batch returns,
  whatever rows are stored, when its key values fit \<^verbatim>\<open>INTEGER\<close>, the texts of its label
  values are taken by \<^verbatim>\<open>JSONB\<close>, and the sequence has a value for each of its
  dictionaries. A batch that returned, run again on the connection it left, returns
  again and leaves the committed table as it is, while the sequence has a value for
  each dictionary. For the whole pipeline: when a run returns, a second run with the
  same arguments against the same server, from the table and the sequence the first
  run left, returns and leaves that table unchanged, while the sequence has a value
  for each dataset; and no run, returning or not, leaves two rows under one natural
  key in a table that had none.
\<close>

theorem overlapping_insert_is_idempotent:
  "(db_insert dumps conn data_list = (res, conn1) \<and> txn conn = Some rows \<and>
    stored conn = Some rows \<longrightarrow>
      (\<exists>new. stored conn1 = Some (rows @ new) \<and>
         (\<forall>k\<in>set (map row_key rows).
            filter (\<lambda>r. row_key r = k) (rows @ new) = filter (\<lambda>r. row_key r = k) rows) \<and>
         (distinct (map row_key rows) \<longrightarrow> distinct (map row_key (rows @ new))) \<and>
         (set (map natural_key data_list) \<subseteq> set (map row_key rows) \<longrightarrow> new = []))) \<and>
   (closes conn = 0 \<and> \<not> aborted conn \<and> txn conn = Some rows \<and>
    (\<forall>r\<in>set rows. fst r < id_seq conn) \<and>
    (\<forall>v\<in>set data_list. jsonb_in conn (dumps (label_values v)) \<and> fits_row v) \<and>
    id_seq conn + int (length data_list) \<le> 2 ^ 31 \<longrightarrow>
      (\<exists>c. db_insert dumps conn data_list = (Inr (), c))) \<and>
   (db_insert dumps conn data_list = (Inr (), conn1) \<and>
    id_seq conn1 + int (length data_list) \<le> 2 ^ 31 \<longrightarrow>
      (\<exists>conn2. db_insert dumps conn1 data_list = (Inr (), conn2) \<and>
         stored conn2 = stored conn1)) \<and>
   (outcome (upload dumps srv pg args) = None \<and> final (upload dumps srv pg args) = Some st1 \<and>
    id_seq (db_conn st1) + int (length (yielded_of (horreum_datasets srv
      (horreum_test_id args) (horreum_count args) (horreum_page args)
      (horreum_limit args)))) \<le> 2 ^ 31 \<longrightarrow>
      outcome (upload dumps srv
        (pg\<lparr>data_table := stored (db_conn st1), data_id_seq := id_seq (db_conn st1)\<rparr>)
        args) = None \<and>
      (\<exists>st2. final (upload dumps srv
           (pg\<lparr>data_table := stored (db_conn st1), data_id_seq := id_seq (db_conn st1)\<rparr>)
           args) = Some st2 \<and>
         stored (db_conn st2) = stored (db_conn st1))) \<and>
   ((\<forall>old. data_table pg = Some old \<longrightarrow> distinct (map row_key old)) \<and>
    final (upload dumps srv pg args) = Some st \<longrightarrow>
      (\<forall>tbl. stored (db_conn st) = Some tbl \<longrightarrow> distinct (map row_key tbl)))"
proof (intro conjI impI)
  assume "db_insert dumps conn data_list = (res, conn1) \<and> txn conn = Some rows \<and>
    stored conn = Some rows"
  then show "\<exists>new. stored conn1 = Some (rows @ new) \<and>
         (\<forall>k\<in>set (map row_key rows).
            filter (\<lambda>r. row_key r = k) (rows @ new) = filter (\<lambda>r. row_key r = k) rows) \<and>
         (distinct (map row_key rows) \<longrightarrow> distinct (map row_key (rows @ new))) \<and>
         (set (map natural_key data_list) \<subseteq> set (map row_key rows) \<longrightarrow> new = [])"
    using db_insert_no_duplicates [of dumps conn data_list res conn1 rows] by blast
next
  assume a: "closes conn = 0 \<and> \<not> aborted conn \<and> txn conn = Some rows \<and>
    (\<forall>r\<in>set rows. fst r < id_seq conn) \<and>
    (\<forall>v\<in>set data_list. jsonb_in conn (dumps (label_values v)) \<and> fits_row v) \<and>
    id_seq conn + int (length data_list) \<le> 2 ^ 31"
  then have "ready conn" by (simp add: ready_def list_all_iff)
  moreover from a have "\<forall>v\<in>set data_list. valid_record (jsonb_in conn) dumps v"
    by (simp add: valid_record_def)
  moreover from a have "id_seq conn + int (length data_list) \<le> 2 ^ 31" by blast
  ultimately show "\<exists>c. db_insert dumps conn data_list = (Inr (), c)"
    using db_insert_returns [of conn data_list dumps] by blast
next
  assume "db_insert dumps conn data_list = (Inr (), conn1) \<and>
    id_seq conn1 + int (length data_list) \<le> 2 ^ 31"
  then show "\<exists>conn2. db_insert dumps conn1 data_list = (Inr (), conn2) \<and>
         stored conn2 = stored conn1"
    using db_insert_again [of dumps conn data_list "()" conn1] by blast
next
  assume a: "outcome (upload dumps srv pg args) = None \<and>
    final (upload dumps srv pg args) = Some st1 \<and>
    id_seq (db_conn st1) + int (length (yielded_of (horreum_datasets srv
      (horreum_test_id args) (horreum_count args) (horreum_page args)
      (horreum_limit args)))) \<le> 2 ^ 31"
  with upload_twice [of dumps srv pg args st1]
  show "outcome (upload dumps srv
        (pg\<lparr>data_table := stored (db_conn st1), data_id_seq := id_seq (db_conn st1)\<rparr>)
        args) = None"
    and "\<exists>st2. final (upload dumps srv
           (pg\<lparr>data_table := stored (db_conn st1), data_id_seq := id_seq (db_conn st1)\<rparr>)
           args) = Some st2 \<and>
         stored (db_conn st2) = stored (db_conn st1)"
    by simp_all
next
  assume a: "(\<forall>old. data_table pg = Some old \<longrightarrow> distinct (map row_key old)) \<and>
    final (upload dumps srv pg args) = Some st"
  then have "keys_distinct (data_table pg)" by (cases "data_table pg") simp_all
  with a have "keys_distinct (stored (db_conn st))"
    using upload_keeps_keys_distinct [of pg dumps srv args st] by blast
  then show "\<forall>tbl. stored (db_conn st) = Some tbl \<longrightarrow> distinct (map row_key tbl)"
    by (cases "stored (db_conn st)") simp_all
qed

text \<open>
  The theorem on a batch that overlaps the stored rows in one key: the call returns,
  the stored row of that key stays the only one, the new row gets the value 4 of \<^verbatim>\<open>id\<close>
  because the skipped row took 3, and the same batch again returns and changes
  nothing. And on two runs over a server with 23 datasets, the first of which leaves
  no two rows under one natural key.
\<close>

theorem overlapping_insert_is_idempotent_witness:
  "db_insert example_dumps (connection_with [example_stored 1 1, example_stored 2 2] 3)
     [example_row 2, example_row 3] =
     (Inr (), (connection_with [example_stored 1 1, example_stored 2 2, example_stored 4 3] 5)
        \<lparr>commits := 1\<rparr>) \<and>
   filter (\<lambda>r. row_key r = natural_key (example_row 2))
     [example_stored 1 1, example_stored 2 2, example_stored 4 3] = [example_stored 2 2] \<and>
   (\<exists>conn2. db_insert example_dumps
      ((connection_with [example_stored 1 1, example_stored 2 2, example_stored 4 3] 5)
         \<lparr>commits := 1\<rparr>)
      [example_row 2, example_row 3] = (Inr (), conn2) \<and>
      stored conn2 = Some [example_stored 1 1, example_stored 2 2, example_stored 4 3]) \<and>
   outcome (upload example_dumps (paged_source (example_items 23)) empty_database
     (example_args 100)) = None \<and>
   outcome (upload example_dumps (paged_source (example_items 23))
     (empty_database\<lparr>data_table := stored (db_conn (the (final
        (upload example_dumps (paged_source (example_items 23)) empty_database
           (example_args 100))))),
      data_id_seq := id_seq (db_conn (the (final
        (upload example_dumps (paged_source (example_items 23)) empty_database
           (example_args 100)))))\<rparr>)
     (example_args 100)) = None \<and>
   map_option (\<lambda>st. stored (db_conn st)) (final (upload example_dumps
     (paged_source (example_items 23))
     (empty_database\<lparr>data_table := stored (db_conn (the (final
        (upload example_dumps (paged_source (example_items 23)) empty_database
           (example_args 100))))),
      data_id_seq := id_seq (db_conn (the (final
        (upload example_dumps (paged_source (example_items 23)) empty_database
           (example_args 100)))))\<rparr>)
     (example_args 100))) =
   map_option (\<lambda>st. stored (db_conn st)) (final
     (upload example_dumps (paged_source (example_items 23)) empty_database
        (example_args 100))) \<and>
   keys_distinct (stored (db_conn (the (final
     (upload example_dumps (paged_source (example_items 23)) empty_database
        (example_args 100))))))"
proof -
  define rows where "rows = [example_stored 1 1, example_stored 2 2]"
  define c where "c = connection_with rows 3"
  define c1 where "c1 =
    (connection_with [example_stored 1 1, example_stored 2 2, example_stored 4 3] 5)
      \<lparr>commits := 1\<rparr>"
  have ev: "db_insert example_dumps c [example_row 2, example_row 3] = (Inr (), c1)"
    by (simp add: db_insert_cases insert_do_nothing_Some c_def c1_def rows_def
        connection_with_def example_stored_def example_row_def example_texts
        fits_row_def fits_integer_def natural_key_def)
  have h1: "txn c = Some rows" "stored c = Some rows" by (simp_all add: c_def connection_with_def)
  have h2: "closes c = 0 \<and> \<not> aborted c \<and> txn c = Some rows \<and>
      (\<forall>r\<in>set rows. fst r < id_seq c) \<and>
      (\<forall>v\<in>set [example_row 2, example_row 3].
         jsonb_in c (example_dumps (label_values v)) \<and> fits_row v) \<and>
      id_seq c + int (length [example_row 2, example_row 3]) \<le> 2 ^ 31"
    by (simp add: c_def rows_def connection_with_def example_stored_def example_row_def
        example_texts fits_row_def fits_integer_def)
  have h3: "id_seq c1 + int (length [example_row 2, example_row 3]) \<le> 2 ^ 31"
    by (simp add: c1_def connection_with_def)
  note inst = overlapping_insert_is_idempotent
    [where dumps = example_dumps and conn = c and data_list = "[example_row 2, example_row 3]"
       and res = "Inr ()" and rows = rows and ?conn1.0 = c1
       and srv = "paged_source (example_items 23)" and pg = empty_database
       and args = "example_args 100"]
  from inst ev h1 obtain new where
    n: "stored c1 = Some (rows @ new)"
    and k: "\<forall>k\<in>set (map row_key rows).
       filter (\<lambda>r. row_key r = k) (rows @ new) = filter (\<lambda>r. row_key r = k) rows"
    by blast
  from inst h2 obtain cx where "db_insert example_dumps c [example_row 2, example_row 3] =
      (Inr (), cx)"
    by blast
  from inst ev h3 obtain conn2 where
    again: "db_insert example_dumps c1 [example_row 2, example_row 3] = (Inr (), conn2)"
      "stored conn2 = stored c1"
    by blast
  from n have rn: "rows @ new = [example_stored 1 1, example_stored 2 2, example_stored 4 3]"
    by (simp add: c1_def connection_with_def)
  have "natural_key (example_row 2) \<in> set (map row_key rows)"
    by (simp add: rows_def example_stored_def)
  with k have "filter (\<lambda>r. row_key r = natural_key (example_row 2)) (rows @ new) =
     filter (\<lambda>r. row_key r = natural_key (example_row 2)) rows"
    by blast
  then have "filter (\<lambda>r. row_key r = natural_key (example_row 2))
     [example_stored 1 1, example_stored 2 2, example_stored 4 3] =
     filter (\<lambda>r. row_key r = natural_key (example_row 2)) rows"
    unfolding rn .
  also have "\<dots> = [example_stored 2 2]"
    by (simp add: rows_def example_stored_def example_row_def natural_key_def)
  finally have one: "filter (\<lambda>r. row_key r = natural_key (example_row 2))
     [example_stored 1 1, example_stored 2 2, example_stored 4 3] = [example_stored 2 2]" .
  from again have two: "\<exists>conn2. db_insert example_dumps c1 [example_row 2, example_row 3] =
      (Inr (), conn2) \<and>
      stored conn2 = Some [example_stored 1 1, example_stored 2 2, example_stored 4 3]"
    by (simp add: c1_def connection_with_def)
  from example_23_run obtain st1 where
    o: "outcome (upload example_dumps (paged_source (example_items 23)) empty_database
        (example_args 100)) = None"
    and f: "final (upload example_dumps (paged_source (example_items 23)) empty_database
        (example_args 100)) = Some st1"
    and q: "id_seq (db_conn st1) = 24"
    and l: "length (yielded_of (horreum_datasets (paged_source (example_items 23)) 1 100 1 10)) =
        23"
    by blast
  from q l have room: "id_seq (db_conn st1) + int (length (yielded_of (horreum_datasets
      (paged_source (example_items 23)) (horreum_test_id (example_args 100))
      (horreum_count (example_args 100)) (horreum_page (example_args 100))
      (horreum_limit (example_args 100))))) \<le> 2 ^ 31"
    by (simp add: example_args_def)
  from overlapping_insert_is_idempotent
    [where dumps = example_dumps and srv = "paged_source (example_items 23)"
       and pg = empty_database and args = "example_args 100" and ?st1.0 = st1] o f room
  obtain st2 where
    o2: "outcome (upload example_dumps (paged_source (example_items 23))
        (empty_database\<lparr>data_table := stored (db_conn st1),
           data_id_seq := id_seq (db_conn st1)\<rparr>) (example_args 100)) = None"
    and f2: "final (upload example_dumps (paged_source (example_items 23))
        (empty_database\<lparr>data_table := stored (db_conn st1),
           data_id_seq := id_seq (db_conn st1)\<rparr>) (example_args 100)) = Some st2"
    and s2: "stored (db_conn st2) = stored (db_conn st1)"
    by blast
  have "\<forall>old. data_table empty_database = Some old \<longrightarrow> distinct (map row_key old)"
    by (simp add: empty_database_def)
  with overlapping_insert_is_idempotent
    [where dumps = example_dumps and srv = "paged_source (example_items 23)"
       and pg = empty_database and args = "example_args 100" and st = st1] f
  have "\<forall>tbl. stored (db_conn st1) = Some tbl \<longrightarrow> distinct (map row_key tbl)"
    by blast
  then have d: "keys_distinct (stored (db_conn st1))"
    by (cases "stored (db_conn st1)") simp_all
  from ev one two o o2 f f2 s2 d show ?thesis by (simp add: c_def c1_def rows_def)
qed

end
